theory Spec2Isabelle
  imports Complex_Main "HOL-Library.Sublist" "HOL-Library.Log_Nat"
begin

section \<open>Text formatting helpers of the Go runtime\<close>

text \<open>
  Go strings are byte sequences; they are modelled as \<open>string\<close> (a list of 8-bit
  characters).  The verbs of \<open>fmt.Sprintf\<close> used by the thumbnail code are \<open>%s\<close>, \<open>%d\<close>
  and \<open>%02d\<close>.
\<close>

definition digit_char :: "nat \<Rightarrow> char" where
  "digit_char n = ''0123456789'' ! n"

function digits :: "nat \<Rightarrow> string" where
  "digits n = (if n < 10 then [digit_char n] else digits (n div 10) @ [digit_char (n mod 10)])"
  by pat_completeness auto
termination
  by (relation "measure (\<lambda>n. n)") auto

declare digits.simps [simp del]

text \<open>\<open>%d\<close>: the decimal numeral of an integer, with a minus sign when negative.\<close>

definition fmt_d :: "int \<Rightarrow> string" where
  "fmt_d n = (if n < 0 then CHR ''-'' # digits (nat (- n)) else digits (nat n))"

text \<open>
  \<open>%02d\<close>: zero padding to a minimum width of two.  The sign counts towards the
  width, so a negative number is never padded; a numeral wider than two is printed in
  full.
\<close>

definition fmt_02d :: "int \<Rightarrow> string" where
  "fmt_02d n =
     (if n < 0 then CHR ''-'' # digits (nat (- n))
      else if n < 10 then CHR ''0'' # digits (nat n)
      else digits (nat n))"

section \<open>Duration formatting\<close>

text \<open>
  \<open>FormatDurationForThumbnail(seconds int) string\<close>.  Go's \<open>/\<close> and \<open>%\<close> truncate
  towards zero; they are applied only after the guard \<open>seconds <= 0\<close> has returned,
  where they agree with \<open>div\<close> and \<open>mod\<close>.  No operation can overflow.
\<close>

definition FormatDurationForThumbnail :: "int \<Rightarrow> string" where
  "FormatDurationForThumbnail seconds =
     (if seconds \<le> 0 then ''00:00''
      else
        let hours = seconds div 3600;
            minutes = (seconds mod 3600) div 60;
            secs = seconds mod 60
        in if hours > 0
           then fmt_02d hours @ '':'' @ fmt_02d minutes @ '':'' @ fmt_02d secs
           else fmt_02d minutes @ '':'' @ fmt_02d secs)"

section \<open>Splitting and joining text\<close>

text \<open>
  \<open>strings.Fields\<close> splits a string around each run of white space, as
  \<open>unicode.IsSpace\<close> defines it: the code points U+0009 to U+000D, U+0020, U+0085,
  U+00A0, U+1680, U+2000 to U+200A, U+2028, U+2029, U+202F, U+205F and U+3000.  On the
  bytes of a Go string these are the UTF-8 encodings listed below.  Each of them starts
  with a byte that is not a UTF-8 continuation byte, so scanning the bytes for these
  encodings finds exactly the white-space runes the decoder finds.
\<close>

definition space_encodings :: "string list" where
  "space_encodings =
     [[CHR 0x09], [CHR 0x0A], [CHR 0x0B], [CHR 0x0C], [CHR 0x0D], [CHR 0x20],
      [CHR 0xC2, CHR 0x85], [CHR 0xC2, CHR 0xA0],
      [CHR 0xE1, CHR 0x9A, CHR 0x80],
      [CHR 0xE2, CHR 0x80, CHR 0x80], [CHR 0xE2, CHR 0x80, CHR 0x81],
      [CHR 0xE2, CHR 0x80, CHR 0x82], [CHR 0xE2, CHR 0x80, CHR 0x83],
      [CHR 0xE2, CHR 0x80, CHR 0x84], [CHR 0xE2, CHR 0x80, CHR 0x85],
      [CHR 0xE2, CHR 0x80, CHR 0x86], [CHR 0xE2, CHR 0x80, CHR 0x87],
      [CHR 0xE2, CHR 0x80, CHR 0x88], [CHR 0xE2, CHR 0x80, CHR 0x89],
      [CHR 0xE2, CHR 0x80, CHR 0x8A],
      [CHR 0xE2, CHR 0x80, CHR 0xA8], [CHR 0xE2, CHR 0x80, CHR 0xA9],
      [CHR 0xE2, CHR 0x80, CHR 0xAF],
      [CHR 0xE2, CHR 0x81, CHR 0x9F],
      [CHR 0xE3, CHR 0x80, CHR 0x80]]"

text \<open>The white-space rune a string starts with, if it starts with one.\<close>

definition space_at :: "string \<Rightarrow> string option" where
  "space_at s = find (\<lambda>p. prefix p s) space_encodings"

lemma space_at_member: "space_at s = Some p \<Longrightarrow> p \<in> set space_encodings \<and> prefix p s"
  unfolding space_at_def by (metis find_Some_iff nth_mem)

lemma space_encodings_nonempty: "[] \<notin> set space_encodings"
  by (simp add: space_encodings_def)

lemma space_at_nonempty: "space_at s = Some p \<Longrightarrow> p \<noteq> []"
  using space_at_member space_encodings_nonempty by metis

text \<open>
  The scan of \<open>strings.Fields\<close>: \<open>w\<close> is the field collected so far, \<open>s\<close> the rest
  of the input.  A white-space rune ends the field in progress; any other byte extends
  it.
\<close>

function fields_scan :: "string \<Rightarrow> string \<Rightarrow> string list" where
  "fields_scan w [] = (if w = [] then [] else [w])"
| "fields_scan w (c # cs) =
     (case space_at (c # cs) of
        Some p \<Rightarrow> (if w = [] then [] else [w]) @ fields_scan [] (drop (length p) (c # cs))
      | None \<Rightarrow> fields_scan (w @ [c]) cs)"
  by pat_completeness auto
termination
proof (relation "measure (\<lambda>(w, s). length s)")
  fix w :: string and c cs p
  assume "space_at (c # cs) = Some p"
  then have "p \<noteq> []" by (rule space_at_nonempty)
  then show "((([]::string), drop (length p) (c # cs)), (w, c # cs)) \<in> measure (\<lambda>(w, s). length s)"
    by simp
qed simp_all

definition Fields :: "string \<Rightarrow> string list" where
  "Fields s = fields_scan [] s"

text \<open>\<open>strings.Join(elems, sep)\<close>.\<close>

fun Join :: "string list \<Rightarrow> string \<Rightarrow> string" where
  "Join [] sep = []"
| "Join [x] sep = x"
| "Join (x # y # ys) sep = x @ sep @ Join (y # ys) sep"

lemma Join_Cons: "Join (x # xs) sep = (if xs = [] then x else x @ sep @ Join xs sep)"
  by (cases xs) simp_all

lemma Join_snoc: "Join (xs @ [x]) sep = (if xs = [] then x else Join xs sep @ sep @ x)"
  by (induction xs sep rule: Join.induct) simp_all

lemma length_Join_fields_scan:
  "length (Join (fields_scan w s) '' '') \<le> length w + length s"
proof (induction w s rule: fields_scan.induct)
  case (1 w)
  then show ?case by simp
next
  case (2 w c cs)
  show ?case
  proof (cases "space_at (c # cs)")
    case None
    then show ?thesis using 2(1) [OF None] by simp
  next
    case (Some p)
    then have "p \<noteq> []" by (rule space_at_nonempty)
    then have d: "length (drop (length p) (c # cs)) \<le> length cs" by (cases p) simp_all
    have ih: "length (Join (fields_scan [] (drop (length p) (c # cs))) '' '')
        \<le> length (drop (length p) (c # cs))"
      using 2(2) [OF Some] by simp
    show ?thesis
    proof (cases "w = []")
      case True
      then show ?thesis using Some ih d by simp
    next
      case False
      have "length (Join (w # fields_scan [] (drop (length p) (c # cs))) '' '')
          \<le> length w + 1 + length (Join (fields_scan [] (drop (length p) (c # cs))) '' '')"
        by (simp add: Join_Cons)
      then show ?thesis using False Some ih d by simp
    qed
  qed
qed

lemma length_Join_Fields: "length (Join (Fields s) '' '') \<le> length s"
  using length_Join_fields_scan [of "[]" s] by (simp add: Fields_def)

lemma Join_butlast_last:
  assumes "2 \<le> length ws"
  shows "Join ws sep = Join (butlast ws) sep @ sep @ last ws"
proof -
  have ne: "ws \<noteq> []" "butlast ws \<noteq> []"
    using assms by (auto simp: le_Suc_eq butlast_conv_take)
  then have "ws = butlast ws @ [last ws]" by simp
  then show ?thesis using Join_snoc [of "butlast ws" "last ws" sep] ne by simp
qed

lemma drop_last_word_shorter:
  assumes "\<not> length (Fields lastLine) \<le> 1"
  shows "length (Join (take (length (Fields lastLine) - 1) (Fields lastLine)) '' '') < length lastLine"
proof -
  have "2 \<le> length (Fields lastLine)" using assms by simp
  then have "length (Join (butlast (Fields lastLine)) '' '') < length (Join (Fields lastLine) '' '')"
    by (simp add: Join_butlast_last [of "Fields lastLine" "'' ''"])
  then show ?thesis using length_Join_Fields [of lastLine] by (simp add: butlast_conv_take)
qed

section \<open>Wrapping the title\<close>

text \<open>
  \<open>wrapText(dc, text, maxWidth)\<close>.  The drawing context is used only through
  \<open>dc.MeasureString\<close>, which is the parameter \<open>m\<close>; its \<open>float64\<close> results are only
  compared with \<open>maxWidth\<close>, so any linearly ordered type of widths will do.

  \<open>wrap_words\<close> is the first loop, over the words still to place (its first
  argument), carrying the local variables \<open>lines\<close> and \<open>currentLine\<close>.
\<close>

primrec wrap_words ::
  "string list \<Rightarrow> (string \<Rightarrow> 'w::linorder) \<Rightarrow> 'w \<Rightarrow> string list \<Rightarrow> string \<Rightarrow> string list \<times> string"
where
  "wrap_words [] m maxWidth lines currentLine = (lines, currentLine)"
| "wrap_words (word # rest) m maxWidth lines currentLine =
     (let testLine = (if currentLine \<noteq> [] then currentLine @ '' '' else currentLine) @ word
      in if m testLine > maxWidth \<and> currentLine \<noteq> []
         then wrap_words rest m maxWidth (lines @ [currentLine]) word
         else wrap_words rest m maxWidth lines testLine)"

text \<open>
  The second loop: \<open>lastLine\<close> loses its last word until it fits together with the
  ellipsis.  The result is the new value assigned to \<open>lines[1]\<close>, or \<open>None\<close> when the
  loop breaks at a single word without assigning.
\<close>

function ellipsis_loop :: "(string \<Rightarrow> 'w::linorder) \<Rightarrow> 'w \<Rightarrow> string \<Rightarrow> string option" where
  "ellipsis_loop m maxWidth lastLine =
     (if m (lastLine @ ''...'') \<le> maxWidth then Some (lastLine @ ''...'')
      else let words = Fields lastLine
           in if length words \<le> 1 then None
              else ellipsis_loop m maxWidth (Join (take (length words - 1) words) '' ''))"
  by pat_completeness auto
termination
proof (relation "measure (\<lambda>(m, maxWidth, lastLine). length lastLine)")
  fix m :: "string \<Rightarrow> 'w" and maxWidth :: 'w and lastLine words
  assume "words = Fields lastLine" "\<not> length words \<le> 1"
  then show "((m, maxWidth, Join (take (length words - 1) words) '' ''), (m, maxWidth, lastLine))
      \<in> measure (\<lambda>(m, maxWidth, lastLine). length lastLine)"
    using drop_last_word_shorter [of lastLine] by simp
qed simp

declare ellipsis_loop.simps [simp del]

text \<open>The value of \<open>lines\<close> when \<open>wrapText\<close> returns, for a text that has words.\<close>

definition wrapped_lines :: "(string \<Rightarrow> 'w::linorder) \<Rightarrow> 'w \<Rightarrow> string list \<Rightarrow> string list" where
  "wrapped_lines m maxWidth words =
     (let (lines, currentLine) = wrap_words words m maxWidth [] [];
          lines = (if currentLine \<noteq> [] then lines @ [currentLine] else lines)
      in if length lines > 2
         then (let lines = take 2 lines;
                   lastLine = lines ! 1
               in case ellipsis_loop m maxWidth lastLine of
                    Some l \<Rightarrow> lines[1 := l]
                  | None \<Rightarrow> lines)
         else lines)"

definition wrapText :: "(string \<Rightarrow> 'w::linorder) \<Rightarrow> 'w \<Rightarrow> string \<Rightarrow> string" where
  "wrapText m maxWidth text =
     (let words = Fields text
      in if length words = 0 then text
         else Join (wrapped_lines m maxWidth words) [CHR 0x0A])"

section \<open>Images and the drawing context\<close>

text \<open>
  Pixels are not modelled.  An image is known by its size (\<open>Bounds().Dx()\<close>,
  \<open>Bounds().Dy()\<close>) and by how it was made: decoded from downloaded bytes, scaled by
  \<open>resize.Resize\<close>, or taken out of a drawing context after a sequence of paint
  operations.  \<open>float64\<close> coordinates and font sizes, which are only passed on to the
  drawing library, are recorded as the exact rationals they stand for; the colour
  channels of \<open>color.RGBA\<close> are numbers below 256.
\<close>

datatype rgba = RGBA nat nat nat nat

datatype face = Face7x13 | FontFace string rat

datatype paint =
    Filled "(rat \<times> rat \<times> rat \<times> rat) list" rgba
  | Text string rat rat rat rat rgba face

datatype image =
    Decoded nat nat string
  | Scaled nat nat image
  | Canvas image "paint list"

fun Dx :: "image \<Rightarrow> nat" where
  "Dx (Decoded w h d) = w"
| "Dx (Scaled w h i) = w"
| "Dx (Canvas i ps) = Dx i"

fun Dy :: "image \<Rightarrow> nat" where
  "Dy (Decoded w h d) = h"
| "Dy (Scaled w h i) = h"
| "Dy (Canvas i ps) = Dy i"

text \<open>
  The \<open>gg.Context\<close>: the image it was created for (a copy, so painting never changes
  the original), what has been painted on it, the current colour, font face and path.
\<close>

record Context =
  im :: image
  painted :: "paint list"
  color :: rgba
  fontFace :: face
  path :: "(rat \<times> rat \<times> rat \<times> rat) list"

definition NewContextForImage :: "image \<Rightarrow> Context" where
  "NewContextForImage img =
     \<lparr>im = img, painted = [], color = RGBA 0 0 0 0, fontFace = Face7x13, path = []\<rparr>"

definition SetColor :: "Context \<Rightarrow> rgba \<Rightarrow> Context" where
  "SetColor dc c = dc\<lparr>color := c\<rparr>"

definition DrawRectangle :: "Context \<Rightarrow> rat \<Rightarrow> rat \<Rightarrow> rat \<Rightarrow> rat \<Rightarrow> Context" where
  "DrawRectangle dc x y w h = dc\<lparr>path := path dc @ [(x, y, w, h)]\<rparr>"

definition Fill :: "Context \<Rightarrow> Context" where
  "Fill dc = dc\<lparr>painted := painted dc @ [Filled (path dc) (color dc)], path := []\<rparr>"

definition DrawStringAnchored :: "Context \<Rightarrow> string \<Rightarrow> rat \<Rightarrow> rat \<Rightarrow> rat \<Rightarrow> rat \<Rightarrow> Context" where
  "DrawStringAnchored dc s x y ax ay =
     dc\<lparr>painted := painted dc @ [Text s x y ax ay (color dc) (fontFace dc)]\<rparr>"

definition Image :: "Context \<Rightarrow> image" where
  "Image dc = Canvas (im dc) (painted dc)"

section \<open>The process state and its surroundings\<close>

datatype error =
    GetFailed
  | BadStatus nat
  | ReadFailed
  | DecodeFailed
  | FontParseFailed
  | NoSuitableFont
  | MkdirFailed
  | CreateFailed
  | EncodeFailed

datatype http_result = GetError | Response nat "string option"

datatype fsnode = Directory | JPEG image int | PNG image | Partial | Other

text \<open>
  Modelled from the spec: the generic TTL cache behind \<open>thumbnailCache\<close> (\<open>NewCache\<close>,
  \<open>Get\<close>, \<open>Set\<close>), which is defined in another file of the package.  \<open>get(key)\<close> finds
  nothing if the key is absent or its entry is past expiry; \<open>set(key, value)\<close> inserts
  or overwrites with the expiry \<open>now + TTL\<close>.  An expired entry is treated as absent by
  every lookup, which is its logical removal; \<open>Get\<close> does not change what is stored.
\<close>

record cache =
  items :: "string \<rightharpoonup> string \<times> int"
  ttl :: int

definition NewCache :: "int \<Rightarrow> cache" where
  "NewCache t = \<lparr>items = Map.empty, ttl = t\<rparr>"

definition cache_Get :: "cache \<Rightarrow> int \<Rightarrow> string \<Rightarrow> string option" where
  "cache_Get c t key =
     (case items c key of
        None \<Rightarrow> None
      | Some (v, expires_at) \<Rightarrow> if expires_at < t then None else Some v)"

definition cache_Set :: "cache \<Rightarrow> int \<Rightarrow> string \<Rightarrow> string \<Rightarrow> cache" where
  "cache_Set c t key v = c\<lparr>items := (items c)(key \<mapsto> (v, t + ttl c))\<rparr>"

text \<open>
  The state a call can read and change: the package variable \<open>thumbnailCache\<close>, the
  file system (the paths \<open>os.Stat\<close> succeeds on, with what they hold), the clock in
  nanoseconds (\<open>time.Now()\<close>; it is read, not advanced, by a call), and the list of
  URLs requested with \<open>http.Get\<close> so far.  Log output is left out.
\<close>

record world =
  thumbnailCache :: cache
  files :: "string \<rightharpoonup> fsnode"
  now :: int
  requests :: "string list"

text \<open>
  What the code gets from outside: the configuration (\<open>config.ThumbnailOverlay\<close>,
  \<open>config.ThumbnailFont\<close>), the package function \<open>CleanURL\<close> (defined in another
  file, so it is a parameter), the answer of the network to a GET, the image decoder,
  whether \<open>gg\<close> can read and parse a font file at a size, the width \<open>gg\<close> measures for
  a string in a face, the dimensions \<open>resize.Resize\<close> picks when asked to keep the
  aspect ratio, the directory \<open>filepath.Join(os.TempDir(), "yukki_thumbnails")\<close>, and
  whether creating directories, creating a file and encoding as PNG or as JPEG at a
  quality succeed.
\<close>

record env =
  ThumbnailOverlay :: bool
  ThumbnailFont :: string
  CleanURL :: "string \<Rightarrow> string"
  http_Get :: "string \<Rightarrow> http_result"
  image_Decode :: "string \<Rightarrow> (nat \<times> nat) option"
  LoadFontFace_ok :: "string \<Rightarrow> rat \<Rightarrow> bool"
  MeasureString :: "face \<Rightarrow> string \<Rightarrow> rat"
  Resize_auto :: "nat \<Rightarrow> nat \<Rightarrow> image \<Rightarrow> nat \<times> nat"
  thumbnailDir :: string
  MkdirAll_ok :: "string \<Rightarrow> bool"
  Create_ok :: "string \<Rightarrow> bool"
  png_Encode_ok :: "image \<Rightarrow> bool"
  jpeg_Encode_ok :: "image \<Rightarrow> int \<Rightarrow> bool"

definition fileExists :: "world \<Rightarrow> string \<Rightarrow> bool" where
  "fileExists w p = (files w p \<noteq> None)"

section \<open>Downloading\<close>

text \<open>\<open>downloadImage(url)\<close>: one GET of the cleaned URL, then the body, then the decoder.\<close>

definition downloadImage :: "env \<Rightarrow> string \<Rightarrow> world \<Rightarrow> (error + image) \<times> world" where
  "downloadImage E url0 w =
     (let url = CleanURL E url0;
          w = w\<lparr>requests := requests w @ [url]\<rparr>
      in case http_Get E url of
           GetError \<Rightarrow> (Inl GetFailed, w)
         | Response status body \<Rightarrow>
             if status \<noteq> 200 then (Inl (BadStatus status), w)
             else (case body of
                     None \<Rightarrow> (Inl ReadFailed, w)
                   | Some data \<Rightarrow>
                       (case image_Decode E data of
                          None \<Rightarrow> (Inl DecodeFailed, w)
                        | Some (width, height) \<Rightarrow> (Inr (Decoded width height data), w))))"

section \<open>Fonts\<close>

definition defaultFontPaths :: "string list" where
  "defaultFontPaths =
     [''/usr/share/fonts/truetype/dejavu/DejaVuSans-Bold.ttf'',
      ''/usr/share/fonts/truetype/dejavu/DejaVuSans.ttf'',
      ''/usr/share/fonts/dejavu/DejaVuSans-Bold.ttf'',
      ''/usr/share/fonts/truetype/liberation/LiberationSans-Bold.ttf'',
      ''/System/Library/Fonts/Helvetica.ttc'',
      ''/usr/share/fonts/truetype/ubuntu/Ubuntu-Bold.ttf'']"

text \<open>\<open>dc.LoadFontFace(path, points)\<close> sets the face of the context only on success.\<close>

definition LoadFontFace :: "env \<Rightarrow> Context \<Rightarrow> string \<Rightarrow> rat \<Rightarrow> error option \<times> Context" where
  "LoadFontFace E dc fontPath points =
     (if LoadFontFace_ok E fontPath points
      then (None, dc\<lparr>fontFace := FontFace fontPath points\<rparr>)
      else (Some FontParseFailed, dc))"

text \<open>The loop of \<open>loadFont\<close> over the default paths still to try.\<close>

fun try_fonts :: "env \<Rightarrow> world \<Rightarrow> Context \<Rightarrow> rat \<Rightarrow> string list \<Rightarrow> error option \<times> Context" where
  "try_fonts E w dc fontSize [] = (Some NoSuitableFont, dc)"
| "try_fonts E w dc fontSize (fontPath # rest) =
     (if fileExists w fontPath
      then (case LoadFontFace E dc fontPath fontSize of
              (None, dc') \<Rightarrow> (None, dc')
            | (Some err, dc') \<Rightarrow> try_fonts E w dc' fontSize rest)
      else try_fonts E w dc fontSize rest)"

definition loadFont :: "env \<Rightarrow> world \<Rightarrow> Context \<Rightarrow> rat \<Rightarrow> error option \<times> Context" where
  "loadFont E w dc fontSize =
     (let customFont = ThumbnailFont E
      in if customFont \<noteq> [] \<and> fileExists w customFont
         then (case LoadFontFace E dc customFont fontSize of
                 (None, dc') \<Rightarrow> (None, dc')
               | (Some err, dc') \<Rightarrow> try_fonts E w dc' fontSize defaultFontPaths)
         else try_fonts E w dc fontSize defaultFontPaths)"

section \<open>Composing the overlay\<close>

text \<open>\<open>ThumbnailConfig\<close> and \<open>DefaultThumbnailConfig()\<close>.\<close>

record ThumbnailConfig =
  AddOverlay :: bool
  OverlayText :: string
  TitleText :: string
  DurationText :: string
  BackgroundColor :: rgba
  TextColor :: rgba
  Width :: nat
  Height :: nat
  Quality :: int

definition DefaultThumbnailConfig :: "env \<Rightarrow> ThumbnailConfig" where
  "DefaultThumbnailConfig E =
     \<lparr>AddOverlay = ThumbnailOverlay E,
      OverlayText = [], TitleText = [], DurationText = [],
      BackgroundColor = RGBA 0 0 0 180,
      TextColor = RGBA 255 255 255 255,
      Width = 1280, Height = 720, Quality = 85\<rparr>"

text \<open>
  \<open>resize.Resize(width, height, img, resize.Lanczos3)\<close> of the library
  \<open>github.com/nfnt/resize\<close>: the result has exactly the requested width and height;
  only a requested dimension of 0 is replaced by one that keeps the aspect ratio.  An
  image that already has the requested size, or has no pixels, is returned as it is.
\<close>

definition resize_Resize :: "env \<Rightarrow> nat \<Rightarrow> nat \<Rightarrow> image \<Rightarrow> image" where
  "resize_Resize E width height img =
     (let (width, height) =
            (if width = 0 \<or> height = 0 then Resize_auto E width height img
             else (width, height))
      in if width = Dx img \<and> height = Dy img then img
         else if Dx img = 0 \<or> Dy img = 0 then img
         else Scaled width height img)"

text \<open>
  \<open>float64\<close> division and multiplication round the exact result to the nearest number
  with a significand of 53 bits, ties to the even significand.  \<open>binade x\<close> is the
  exponent \<open>e\<close> with \<open>2^e \<le> x < 2^(e+1)\<close> of a positive \<open>x\<close>.  The exponent range of
  \<open>float64\<close> is never left by the quotients and products of the gradient, so it is
  not bounded here.
\<close>

definition round_half_even :: "rat \<Rightarrow> int" where
  "round_half_even q =
     (let n = \<lfloor>q\<rfloor>; r = q - of_int n
      in if r < 1 / 2 then n else if 1 / 2 < r then n + 1 else if even n then n else n + 1)"

definition binade :: "rat \<Rightarrow> int" where
  "binade x = (if 1 \<le> x then bitlen \<lfloor>x\<rfloor> - 1 else - bitlen (\<lceil>1 / x\<rceil> - 1))"

definition round_float64 :: "rat \<Rightarrow> rat" where
  "round_float64 x =
     (if x = 0 then 0
      else let a = \<bar>x\<bar>;
               e = binade a;
               r = of_int (round_half_even (a * power_int 2 (52 - e))) * power_int 2 (e - 52)
           in if x < 0 then - r else r)"

definition float64_div :: "rat \<Rightarrow> rat \<Rightarrow> rat" where
  "float64_div x y = round_float64 (x / y)"

definition float64_mul :: "rat \<Rightarrow> rat \<Rightarrow> rat" where
  "float64_mul x y = round_float64 (x * y)"

text \<open>
  The conversion \<open>uint8(x)\<close> of a \<open>float64\<close> drops the fraction.  Go leaves the result
  open when the value does not fit; the model wraps it.
\<close>

definition uint8 :: "rat \<Rightarrow> nat" where
  "uint8 x = nat (\<lfloor>x\<rfloor> mod 256)"

text \<open>
  The gradient loop \<open>for i := 0.0; i < gradientHeight; i++\<close>, one filled rectangle of
  height 1 per iteration.  The alpha is computed as the code does, by a rounded
  division and a rounded multiplication before the conversion.  The other values are
  exact in \<open>float64\<close> for every image a decoder can deliver (its sides are below
  \<open>2^31\<close>): the height, a quarter of it, the whole number \<open>i\<close> and its successor, and
  the row position.
\<close>

function gradient_loop :: "rat \<Rightarrow> nat \<Rightarrow> nat \<Rightarrow> rat \<Rightarrow> Context \<Rightarrow> Context" where
  "gradient_loop gradientHeight width height i dc =
     (if i < gradientHeight
      then (let alpha = uint8 (float64_mul (float64_div i gradientHeight) 180);
                dc = SetColor dc (RGBA 0 0 0 alpha);
                dc = DrawRectangle dc 0 (of_nat height - gradientHeight + i) (of_nat width) 1;
                dc = Fill dc
            in gradient_loop gradientHeight width height (i + 1) dc)
      else dc)"
  by pat_completeness auto
termination
proof (relation "measure (\<lambda>(g, width, height, i, dc). nat \<lceil>g - i\<rceil>)")
  fix gradientHeight i :: rat and width height :: nat and dc x xa xb xc :: Context
  assume "i < gradientHeight"
  then have "0 < \<lceil>gradientHeight - i\<rceil>" by simp
  moreover have "gradientHeight - (i + 1) = (gradientHeight - i) - 1" by simp
  then have "\<lceil>gradientHeight - (i + 1)\<rceil> = \<lceil>gradientHeight - i\<rceil> - 1"
    by (simp only: ceiling_diff_one)
  ultimately show "((gradientHeight, width, height, i + 1, xc), (gradientHeight, width, height, i, dc))
      \<in> measure (\<lambda>(g, width, height, i, dc). nat \<lceil>g - i\<rceil>)"
    by simp
qed simp

declare gradient_loop.simps [simp del]

text \<open>The title layer: the shadow copy, then the copy in the text colour.\<close>

definition draw_title :: "env \<Rightarrow> ThumbnailConfig \<Rightarrow> nat \<Rightarrow> nat \<Rightarrow> Context \<Rightarrow> Context" where
  "draw_title E cfg width height dc =
     (let maxWidth = of_nat width * (9 / 10);
          wrappedTitle = wrapText (MeasureString E (fontFace dc)) maxWidth (TitleText cfg);
          dc = SetColor dc (RGBA 0 0 0 200);
          x = of_nat width / 2;
          y = of_nat height - 60;
          dc = DrawStringAnchored dc wrappedTitle (x + 2) (y + 2) (1 / 2) (1 / 2);
          dc = SetColor dc (TextColor cfg)
      in DrawStringAnchored dc wrappedTitle x y (1 / 2) (1 / 2))"

text \<open>The duration layer, drawn once its font is loaded.\<close>

definition draw_duration :: "ThumbnailConfig \<Rightarrow> nat \<Rightarrow> nat \<Rightarrow> Context \<Rightarrow> Context" where
  "draw_duration cfg width height dc =
     (let dc = SetColor dc (RGBA 0 0 0 200);
          x = of_nat width - 20;
          y = of_nat height - 20;
          dc = DrawStringAnchored dc (DurationText cfg) (x + 1) (y + 1) 1 1;
          dc = SetColor dc (RGBA 255 255 255 255)
      in DrawStringAnchored dc (DurationText cfg) x y 1 1)"

text \<open>The first step of \<open>addOverlay\<close>, "resize image if needed".\<close>

definition resize_step :: "env \<Rightarrow> ThumbnailConfig \<Rightarrow> image \<Rightarrow> image" where
  "resize_step E cfg img =
     (if Dx img > Width cfg \<or> Dy img > Height cfg
      then resize_Resize E (Width cfg) (Height cfg) img
      else img)"

text \<open>
  \<open>addOverlay(img, cfg)\<close>.  It reads the file system (through \<open>loadFont\<close>) and
  changes nothing outside the context it creates.
\<close>

definition addOverlay :: "env \<Rightarrow> world \<Rightarrow> image \<Rightarrow> ThumbnailConfig \<Rightarrow> error + image" where
  "addOverlay E w img0 cfg =
     (let img = resize_step E cfg img0;
          width = Dx img;
          height = Dy img;
          dc = NewContextForImage img;
          gradientHeight = of_nat height * (1 / 4);
          dc = gradient_loop gradientHeight width height 0 dc;
          titleFontSize = of_nat width / 25;
          durationFontSize = of_nat width / 35
      in case loadFont E w dc titleFontSize of
           (Some err, dc) \<Rightarrow> Inr img
         | (None, dc) \<Rightarrow>
             (let dc = (if TitleText cfg \<noteq> [] then draw_title E cfg width height dc else dc);
                  dc = (if DurationText cfg \<noteq> []
                        then (case loadFont E w dc durationFontSize of
                                (Some err, dc) \<Rightarrow> dc
                              | (None, dc) \<Rightarrow> draw_duration cfg width height dc)
                        else dc)
              in Inr (Image dc)))"

section \<open>Saving\<close>

text \<open>
  \<open>filepath.Dir\<close> for a path whose directory part is already clean, as the paths of
  \<open>generateOutputPath\<close> are: everything before the last separator.
\<close>

definition filepath_Dir :: "string \<Rightarrow> string" where
  "filepath_Dir p =
     (let d = rev (dropWhile (\<lambda>c. c \<noteq> CHR ''/'') (rev p))
      in if d = [] then ''.'' else if d = ''/'' then ''/'' else butlast d)"

text \<open>The directories \<open>os.MkdirAll(dir, 0755)\<close> makes sure of: \<open>dir\<close> and its parents.\<close>

definition dir_chain :: "string \<Rightarrow> string list" where
  "dir_chain dir =
     (if take 1 dir = ''/'' then [''/''] else [])
     @ map (\<lambda>k. take k dir) (filter (\<lambda>k. dir ! k = CHR ''/'') [1..<length dir])
     @ [dir]"

definition MkdirAll :: "env \<Rightarrow> string \<Rightarrow> world \<Rightarrow> error option \<times> world" where
  "MkdirAll E dir w =
     (if MkdirAll_ok E dir
      then (None, w\<lparr>files := (\<lambda>p. if p \<in> set (dir_chain dir) \<and> files w p = None
                                    then Some Directory else files w p)\<rparr>)
      else (Some MkdirFailed, w))"

text \<open>
  \<open>strings.HasSuffix(strings.ToLower(path), ".png")\<close>.  Lower-casing changes the
  letters A to Z; no other character becomes one of the four of \<open>.png\<close>.
\<close>

definition ToLower :: "string \<Rightarrow> string" where
  "ToLower s =
     map (\<lambda>c. let n = (of_char c :: nat)
               in if 65 \<le> n \<and> n \<le> 90 then char_of (n + 32) else c) s"

definition HasSuffix :: "string \<Rightarrow> string \<Rightarrow> bool" where
  "HasSuffix s suf = suffix suf s"

text \<open>
  \<open>saveImage(img, path, quality)\<close>.  \<open>os.Create\<close> leaves a file at the path even when
  the encoder fails afterwards.
\<close>

definition saveImage :: "env \<Rightarrow> image \<Rightarrow> string \<Rightarrow> int \<Rightarrow> world \<Rightarrow> error option \<times> world" where
  "saveImage E img p quality w =
     (let dir = filepath_Dir p
      in case MkdirAll E dir w of
           (Some err, w) \<Rightarrow> (Some err, w)
         | (None, w) \<Rightarrow>
             if \<not> Create_ok E p then (Some CreateFailed, w)
             else if HasSuffix (ToLower p) ''.png''
                  then (if png_Encode_ok E img
                        then (None, w\<lparr>files := (files w)(p \<mapsto> PNG img)\<rparr>)
                        else (Some EncodeFailed, w\<lparr>files := (files w)(p \<mapsto> Partial)\<rparr>))
                  else (if jpeg_Encode_ok E img quality
                        then (None, w\<lparr>files := (files w)(p \<mapsto> JPEG img quality)\<rparr>)
                        else (Some EncodeFailed, w\<lparr>files := (files w)(p \<mapsto> Partial)\<rparr>)))"

text \<open>\<open>generateOutputPath()\<close>: \<open>thumb_<UnixNano>.jpg\<close> in the thumbnail directory.\<close>

definition generateOutputPath :: "env \<Rightarrow> world \<Rightarrow> string" where
  "generateOutputPath E w =
     (let timestamp = now w;
          filename = ''thumb_'' @ fmt_d timestamp @ ''.jpg''
      in thumbnailDir E @ ''/'' @ filename)"

section \<open>The pipeline\<close>

text \<open>The cache key \<open>fmt.Sprintf("%s:%s:%s", thumbnailURL, title, duration)\<close>.\<close>

definition cacheKey :: "string \<Rightarrow> string \<Rightarrow> string \<Rightarrow> string" where
  "cacheKey thumbnailURL title duration = thumbnailURL @ '':'' @ title @ '':'' @ duration"

text \<open>
  \<open>ProcessThumbnail\<close> from the download on, that is, after the cache check has not
  returned.
\<close>

definition generate :: "env \<Rightarrow> string \<Rightarrow> string \<Rightarrow> string \<Rightarrow> world \<Rightarrow> (error + string) \<times> world" where
  "generate E thumbnailURL title duration w =
     (case downloadImage E thumbnailURL w of
        (Inl err, w) \<Rightarrow> (Inl err, w)
      | (Inr img, w) \<Rightarrow>
          if \<not> ThumbnailOverlay E
          then (let outputPath = generateOutputPath E w
                in case saveImage E img outputPath 95 w of
                     (Some err, w) \<Rightarrow> (Inl err, w)
                   | (None, w) \<Rightarrow>
                       (Inr outputPath,
                        w\<lparr>thumbnailCache :=
                            cache_Set (thumbnailCache w) (now w)
                              (cacheKey thumbnailURL title duration) outputPath\<rparr>))
          else (let cfg = (DefaultThumbnailConfig E)\<lparr>TitleText := title, DurationText := duration\<rparr>
                in case addOverlay E w img cfg of
                     Inl err \<Rightarrow> (Inl err, w)
                   | Inr processedImg \<Rightarrow>
                       (let outputPath = generateOutputPath E w
                        in case saveImage E processedImg outputPath (Quality cfg) w of
                             (Some err, w) \<Rightarrow> (Inl err, w)
                           | (None, w) \<Rightarrow>
                               (Inr outputPath,
                                w\<lparr>thumbnailCache :=
                                    cache_Set (thumbnailCache w) (now w)
                                      (cacheKey thumbnailURL title duration) outputPath\<rparr>))))"

text \<open>
  \<open>ProcessThumbnail(thumbnailURL, title, duration)\<close>.  The result \<open>Inr p\<close> is the
  path \<open>p\<close> with a nil error; \<open>Inl e\<close> is the empty path with the error \<open>e\<close>.
\<close>

definition ProcessThumbnail ::
  "env \<Rightarrow> string \<Rightarrow> string \<Rightarrow> string \<Rightarrow> world \<Rightarrow> (error + string) \<times> world"
where
  "ProcessThumbnail E thumbnailURL title duration w =
     (if thumbnailURL = [] then (Inr [], w)
      else (case cache_Get (thumbnailCache w) (now w) (cacheKey thumbnailURL title duration) of
              Some cached \<Rightarrow>
                if fileExists w cached then (Inr cached, w)
                else generate E thumbnailURL title duration w
            | None \<Rightarrow> generate E thumbnailURL title duration w))"

section \<open>Properties of the duration format\<close>

text \<open>A field of exactly two decimal digits, and what a decimal digit is.\<close>

definition two_digits :: "int \<Rightarrow> string" where
  "two_digits n = [digit_char (nat (n div 10)), digit_char (nat (n mod 10))]"

definition is_digit :: "char \<Rightarrow> bool" where
  "is_digit c = (c \<in> set ''0123456789'')"

lemma digit_char_is_digit: "n < 10 \<Longrightarrow> is_digit (digit_char n)"
proof -
  assume "n < 10"
  then have "n \<in> {0, 1, 2, 3, 4, 5, 6, 7, 8, 9}" by auto
  then show ?thesis by (auto simp: is_digit_def digit_char_def)
qed

lemma digits_all_digit: "list_all is_digit (digits n)"
proof (induction n rule: digits.induct)
  case (1 n)
  show ?case
  proof (cases "n < 10")
    case True
    then show ?thesis by (simp add: digits.simps [of n] digit_char_is_digit)
  next
    case False
    then have "list_all is_digit (digits (n div 10))" using 1 by simp
    moreover have "is_digit (digit_char (n mod 10))" by (simp add: digit_char_is_digit)
    ultimately show ?thesis using False by (simp add: digits.simps [of n])
  qed
qed

lemma digits_length: "1 \<le> length (digits n)"
  by (subst digits.simps) simp

lemma digits_length2: "10 \<le> n \<Longrightarrow> 2 \<le> length (digits n)"
  using digits_length [of "n div 10"] by (subst digits.simps) simp

lemma fmt_02d_two_digits: "0 \<le> n \<Longrightarrow> n < 100 \<Longrightarrow> fmt_02d n = two_digits n"
proof -
  assume a: "0 \<le> n" "n < 100"
  show ?thesis
  proof (cases "n < 10")
    case True
    then have "n div 10 = 0" "n mod 10 = n" using a by auto
    then show ?thesis using True a
      by (simp add: fmt_02d_def two_digits_def digits.simps [of "nat n"] digit_char_def)
  next
    case False
    then have "nat n div 10 < 10" using a by auto
    moreover have "\<not> nat n < 10" using False by linarith
    moreover have "nat n div 10 = nat (n div 10)" "nat n mod 10 = nat (n mod 10)"
      using a by (simp_all add: nat_div_distrib nat_mod_distrib)
    ultimately show ?thesis using False a
      by (simp add: fmt_02d_def two_digits_def digits.simps [of "nat n"]
            digits.simps [of "nat (n div 10)"])
  qed
qed

lemma fmt_02d_all_digit: "0 \<le> n \<Longrightarrow> list_all is_digit (fmt_02d n)"
  by (simp add: fmt_02d_def digits_all_digit is_digit_def)

lemma fmt_02d_length: "2 \<le> length (fmt_02d n)"
  using digits_length [of "nat (- n)"] digits_length [of "nat n"] digits_length2 [of "nat n"]
  by (auto simp: fmt_02d_def)

lemma colon_not_digit: "list_all is_digit s \<Longrightarrow> filter (\<lambda>c. c = CHR '':'') s = []"
  by (induction s) (auto simp: is_digit_def)

lemma two_digits_all_digit: "0 \<le> n \<Longrightarrow> n < 100 \<Longrightarrow> list_all is_digit (two_digits n)"
  using fmt_02d_all_digit [of n] fmt_02d_two_digits [of n] by simp

text \<open>
  Claim C4.  \<open>FormatDurationForThumbnail\<close> maps 0 to \<open>00:00\<close>, 65 to \<open>01:05\<close>, 3661 to
  \<open>01:01:01\<close> and -5 to \<open>00:00\<close>.  For every number of seconds the output is the hours
  field and a colon, present exactly when the hour count is above zero, followed by the
  minutes and the seconds as two decimal digits each with a colon between them.  The
  hours field consists of at least two decimal digits, so the output has two colons
  exactly when the hour count is above zero and one otherwise.
\<close>

theorem FormatDurationForThumbnail_format:
  "FormatDurationForThumbnail 0 = ''00:00'' \<and>
   FormatDurationForThumbnail 65 = ''01:05'' \<and>
   FormatDurationForThumbnail 3661 = ''01:01:01'' \<and>
   FormatDurationForThumbnail (- 5) = ''00:00'' \<and>
   FormatDurationForThumbnail s =
     (if s \<le> 0 then ''00:00''
      else (if 0 < s div 3600 then fmt_02d (s div 3600) @ '':'' else [])
           @ two_digits ((s mod 3600) div 60) @ '':'' @ two_digits (s mod 60)) \<and>
   list_all is_digit (fmt_02d (s div 3600)) = (0 \<le> s) \<and>
   2 \<le> length (fmt_02d (s div 3600)) \<and>
   list_all is_digit (two_digits ((s mod 3600) div 60)) \<and>
   list_all is_digit (two_digits (s mod 60)) \<and>
   length (filter (\<lambda>c. c = CHR '':'') (FormatDurationForThumbnail s)) =
     (if 0 < s div 3600 then 2 else 1)"
proof -
  have e1: "FormatDurationForThumbnail 0 = ''00:00''"
    by (simp add: FormatDurationForThumbnail_def)
  have e2: "FormatDurationForThumbnail 65 = ''01:05''"
    by (simp add: FormatDurationForThumbnail_def fmt_02d_def digits.simps digit_char_def)
  have e3: "FormatDurationForThumbnail 3661 = ''01:01:01''"
    by (simp add: FormatDurationForThumbnail_def fmt_02d_def digits.simps digit_char_def)
  have e4: "FormatDurationForThumbnail (- 5) = ''00:00''"
    by (simp add: FormatDurationForThumbnail_def)
  have m: "0 \<le> (s mod 3600) div 60" "(s mod 3600) div 60 < 100"
    by (simp_all add: pos_imp_zdiv_nonneg_iff div_less_iff_less_mult)
  have c: "0 \<le> s mod 60" "s mod 60 < 100"
    using pos_mod_bound [of 60 s] by simp_all
  have shape: "FormatDurationForThumbnail s =
     (if s \<le> 0 then ''00:00''
      else (if 0 < s div 3600 then fmt_02d (s div 3600) @ '':'' else [])
           @ two_digits ((s mod 3600) div 60) @ '':'' @ two_digits (s mod 60))"
    unfolding FormatDurationForThumbnail_def Let_def
      fmt_02d_two_digits [OF m] fmt_02d_two_digits [OF c]
    by (cases "0 < s div 3600") (simp_all only: if_True if_False append_assoc append_Nil)
  have hd: "list_all is_digit (fmt_02d (s div 3600)) = (0 \<le> s)"
  proof (cases "0 \<le> s")
    case True
    then show ?thesis by (simp add: fmt_02d_all_digit pos_imp_zdiv_nonneg_iff)
  next
    case False
    then have "s div 3600 < 0" by (simp add: div_neg_pos_less0)
    then show ?thesis using False by (simp add: fmt_02d_def is_digit_def)
  qed
  have cnt: "length (filter (\<lambda>c. c = CHR '':'') (FormatDurationForThumbnail s)) =
     (if 0 < s div 3600 then 2 else 1)"
  proof (cases "s \<le> 0")
    case True
    then have "s div 3600 \<le> 0" by (simp add: div_nonpos_pos_le0)
    then show ?thesis using True by (simp add: FormatDurationForThumbnail_def)
  next
    case False
    then have "0 \<le> s div 3600" by (simp add: pos_imp_zdiv_nonneg_iff)
    then show ?thesis using False
      by (simp add: shape colon_not_digit fmt_02d_all_digit two_digits_all_digit m c)
  qed
  show ?thesis
    using e1 e2 e3 e4 shape hd cnt fmt_02d_length two_digits_all_digit [OF m]
      two_digits_all_digit [OF c]
    by blast
qed

section \<open>Sample surroundings\<close>

text \<open>
  A concrete environment and state to run the pipeline on: one URL answers with an
  image of 640 by 360, every other URL with status 404; every font file parses; the
  cache holds one live entry whose artifact is on disk.
\<close>

definition sample_env :: env where
  "sample_env =
     \<lparr>ThumbnailOverlay = True,
      ThumbnailFont = [],
      CleanURL = (\<lambda>u. u),
      http_Get = (\<lambda>u. if u = ''https://host/ok.jpg'' then Response 200 (Some ''JPEGDATA'')
                       else Response 404 None),
      image_Decode = (\<lambda>d. if d = ''JPEGDATA'' then Some (640, 360) else None),
      LoadFontFace_ok = (\<lambda>p s. True),
      MeasureString = (\<lambda>f s. of_nat (length s) * 10),
      Resize_auto = (\<lambda>w h i. (w, h)),
      thumbnailDir = ''/tmp/yukki_thumbnails'',
      MkdirAll_ok = (\<lambda>d. True),
      Create_ok = (\<lambda>p. True),
      png_Encode_ok = (\<lambda>i. True),
      jpeg_Encode_ok = (\<lambda>i q. True)\<rparr>"

definition sample_world :: world where
  "sample_world =
     \<lparr>thumbnailCache =
        cache_Set (NewCache 1800000000000) 0
          (cacheKey ''https://host/ok.jpg'' ''Song'' ''03:05'') ''/tmp/yukki_thumbnails/thumb_0.jpg'',
      files = [''/tmp/yukki_thumbnails/thumb_0.jpg'' \<mapsto> Other],
      now = 1000,
      requests = []\<rparr>"

section \<open>Properties of the pipeline\<close>

lemma saveImage_keeps:
  "saveImage E img p q w = (r, w') \<Longrightarrow>
   thumbnailCache w' = thumbnailCache w \<and> now w' = now w \<and> requests w' = requests w"
  by (auto simp: saveImage_def Let_def MkdirAll_def split: if_splits prod.splits option.splits)

lemma saveImage_creates:
  "saveImage E img p q w = (None, w') \<Longrightarrow>
   files w' p = Some (if HasSuffix (ToLower p) ''.png'' then PNG img else JPEG img q)"
  by (auto simp: saveImage_def Let_def MkdirAll_def split: if_splits prod.splits option.splits)

lemma saveImage_errors:
  "saveImage E img p q w = (Some e, w') \<Longrightarrow> e \<noteq> NoSuitableFont \<and> e \<noteq> FontParseFailed"
  by (auto simp: saveImage_def Let_def MkdirAll_def split: if_splits prod.splits option.splits)

lemma downloadImage_world:
  "snd (downloadImage E url w) = w\<lparr>requests := requests w @ [CleanURL E url]\<rparr>"
  by (simp add: downloadImage_def Let_def split: http_result.splits option.splits prod.splits)

lemma addOverlay_Inr: "\<exists>r. addOverlay E w img cfg = Inr r"
  by (simp add: addOverlay_def Let_def split: prod.splits option.splits)

lemma generate_requests:
  "requests (snd (generate E u t d w)) = requests w @ [CleanURL E u]"
proof -
  obtain r w1 where dl: "downloadImage E u w = (r, w1)" by (cases "downloadImage E u w")
  then have w1: "w1 = w\<lparr>requests := requests w @ [CleanURL E u]\<rparr>"
    using downloadImage_world [of E u w] by simp
  show ?thesis
  proof (cases r)
    case (Inl e)
    then show ?thesis using dl w1 by (simp add: generate_def)
  next
    case (Inr img)
    obtain pim where a:
      "addOverlay E w1 img ((DefaultThumbnailConfig E)\<lparr>TitleText := t, DurationText := d\<rparr>) = Inr pim"
      using addOverlay_Inr by blast
    show ?thesis using dl Inr w1 a
      by (auto simp: generate_def Let_def split: prod.splits option.splits dest!: saveImage_keeps)
  qed
qed

lemma generate_path_exists:
  assumes "generate E u t d w = (Inr p, w')"
  shows "fileExists w' p"
proof -
  obtain r w1 where dl: "downloadImage E u w = (r, w1)" by (cases "downloadImage E u w")
  then obtain img where r: "r = Inr img" using assms by (cases r) (auto simp: generate_def)
  obtain pim where a:
    "addOverlay E w1 img ((DefaultThumbnailConfig E)\<lparr>TitleText := t, DurationText := d\<rparr>) = Inr pim"
    using addOverlay_Inr by blast
  show ?thesis using assms dl r a
    by (auto simp: generate_def Let_def fileExists_def
        split: prod.splits option.splits if_splits dest!: saveImage_creates)
qed

lemma generate_no_font_error:
  "fst (generate E u t d w) \<noteq> Inl NoSuitableFont \<and> fst (generate E u t d w) \<noteq> Inl FontParseFailed"
proof -
  obtain r w1 where dl: "downloadImage E u w = (r, w1)" by (cases "downloadImage E u w")
  show ?thesis
  proof (cases r)
    case (Inl e)
    then have "e \<noteq> NoSuitableFont \<and> e \<noteq> FontParseFailed" using dl
      by (auto simp: downloadImage_def Let_def split: http_result.splits option.splits if_splits)
    then show ?thesis using dl Inl by (simp add: generate_def)
  next
    case (Inr img)
    obtain pim where a:
      "addOverlay E w1 img ((DefaultThumbnailConfig E)\<lparr>TitleText := t, DurationText := d\<rparr>) = Inr pim"
      using addOverlay_Inr by blast
    show ?thesis using dl Inr a
      by (auto simp: generate_def Let_def split: prod.splits option.splits dest!: saveImage_errors)
  qed
qed

text \<open>
  The ways a download fails, with the error each gives: the GET itself, a status other
  than 200, reading the body, decoding the image.
\<close>

definition download_failure :: "env \<Rightarrow> string \<Rightarrow> error option" where
  "download_failure E url =
     (case http_Get E (CleanURL E url) of
        GetError \<Rightarrow> Some GetFailed
      | Response status body \<Rightarrow>
          if status \<noteq> 200 then Some (BadStatus status)
          else (case body of
                  None \<Rightarrow> Some ReadFailed
                | Some data \<Rightarrow> if image_Decode E data = None then Some DecodeFailed else None))"

lemma downloadImage_failure:
  "download_failure E url = Some err \<Longrightarrow> fst (downloadImage E url w) = Inl err"
  by (auto simp: download_failure_def downloadImage_def Let_def
      split: http_result.splits option.splits if_splits)

text \<open>
  Claim C2.  For a non-empty URL whose key has no cache entry with an existing file:
  if the download fails, \<open>ProcessThumbnail\<close> returns the empty path with that error,
  and the state afterwards differs from the state before only by the one logged
  request: there is no second GET, and the cache and the files are unchanged.
\<close>

theorem ProcessThumbnail_download_failure:
  assumes "thumbnailURL \<noteq> []"
    and "\<forall>cached.
           cache_Get (thumbnailCache w) (now w) (cacheKey thumbnailURL title duration) = Some cached
           \<longrightarrow> \<not> fileExists w cached"
    and "download_failure E thumbnailURL = Some err"
  shows "ProcessThumbnail E thumbnailURL title duration w
           = (Inl err, w\<lparr>requests := requests w @ [CleanURL E thumbnailURL]\<rparr>)"
proof -
  have "ProcessThumbnail E thumbnailURL title duration w = generate E thumbnailURL title duration w"
    using assms(1,2) by (auto simp: ProcessThumbnail_def split: option.splits)
  moreover have "downloadImage E thumbnailURL w
      = (Inl err, w\<lparr>requests := requests w @ [CleanURL E thumbnailURL]\<rparr>)"
    using downloadImage_failure [OF assms(3), of w] downloadImage_world [of E thumbnailURL w]
    by (simp add: prod_eq_iff)
  ultimately show ?thesis by (simp add: generate_def)
qed

theorem ProcessThumbnail_download_failure_witness:
  "ProcessThumbnail sample_env ''https://host/gone.jpg'' ''Song'' ''03:05'' sample_world
     = (Inl (BadStatus 404), sample_world\<lparr>requests := [''https://host/gone.jpg'']\<rparr>)"
proof -
  have u: "''https://host/gone.jpg'' \<noteq> []" by simp
  have m: "\<forall>cached.
      cache_Get (thumbnailCache sample_world) (now sample_world)
        (cacheKey ''https://host/gone.jpg'' ''Song'' ''03:05'') = Some cached
      \<longrightarrow> \<not> fileExists sample_world cached"
    by (simp add: sample_world_def cache_Get_def cache_Set_def NewCache_def cacheKey_def)
  have f: "download_failure sample_env ''https://host/gone.jpg'' = Some (BadStatus 404)"
    by (simp add: download_failure_def sample_env_def)
  have c: "CleanURL sample_env ''https://host/gone.jpg'' = ''https://host/gone.jpg''"
    by (simp add: sample_env_def)
  have r: "requests sample_world = []" by (simp add: sample_world_def)
  show ?thesis
    using ProcessThumbnail_download_failure [OF u m f] c r by simp
qed

text \<open>
  Claim C10.  For the empty URL \<open>ProcessThumbnail\<close> returns the empty path with a nil
  error and the state it was given: nothing is looked up, requested, cached or
  written.
\<close>

theorem ProcessThumbnail_empty_url:
  "ProcessThumbnail E [] title duration w = (Inr [], w)"
  by (simp add: ProcessThumbnail_def)

text \<open>
  Claim C9.  The key is a function of the triple, but not an injective one: a colon in
  the title or the duration moves the boundary between the parts.  The requests for
  title \<open>A:01\<close> with duration \<open>02:03\<close> and for title \<open>A\<close> with duration \<open>01:02:03\<close>
  have the same key, so with the artifact of the first in the cache the second is
  answered with it.
\<close>

theorem cacheKey_collision:
  "cacheKey ''https://host/ok.jpg'' ''A:01'' ''02:03''
     = cacheKey ''https://host/ok.jpg'' ''A'' ''01:02:03''
   \<and> (''A:01'', ''02:03'') \<noteq> (''A'', ''01:02:03'')
   \<and> ProcessThumbnail sample_env ''https://host/ok.jpg'' ''A'' ''01:02:03''
        (sample_world\<lparr>thumbnailCache :=
           cache_Set (NewCache 1800000000000) 0
             (cacheKey ''https://host/ok.jpg'' ''A:01'' ''02:03'')
             ''/tmp/yukki_thumbnails/thumb_0.jpg''\<rparr>)
      = (Inr ''/tmp/yukki_thumbnails/thumb_0.jpg'',
         sample_world\<lparr>thumbnailCache :=
           cache_Set (NewCache 1800000000000) 0
             (cacheKey ''https://host/ok.jpg'' ''A:01'' ''02:03'')
             ''/tmp/yukki_thumbnails/thumb_0.jpg''\<rparr>)"
  by (simp add: cacheKey_def ProcessThumbnail_def cache_Get_def cache_Set_def NewCache_def
      sample_world_def fileExists_def)

section \<open>Properties of font resolution\<close>

text \<open>A font path is usable at a size when the file exists and parses.\<close>

definition usable_font :: "env \<Rightarrow> world \<Rightarrow> rat \<Rightarrow> string \<Rightarrow> bool" where
  "usable_font E w fontSize p = (fileExists w p \<and> LoadFontFace_ok E p fontSize)"

definition font_resolves :: "env \<Rightarrow> world \<Rightarrow> rat \<Rightarrow> bool" where
  "font_resolves E w fontSize =
     ((ThumbnailFont E \<noteq> [] \<and> usable_font E w fontSize (ThumbnailFont E))
      \<or> list_ex (usable_font E w fontSize) defaultFontPaths)"

lemma try_fonts_find:
  "try_fonts E w dc fontSize ps =
     (case find (usable_font E w fontSize) ps of
        Some p \<Rightarrow> (None, dc\<lparr>fontFace := FontFace p fontSize\<rparr>)
      | None \<Rightarrow> (Some NoSuitableFont, dc))"
  by (induction ps) (simp_all add: usable_font_def LoadFontFace_def)

lemma loadFont_eq:
  "loadFont E w dc fontSize =
     (if ThumbnailFont E \<noteq> [] \<and> usable_font E w fontSize (ThumbnailFont E)
      then (None, dc\<lparr>fontFace := FontFace (ThumbnailFont E) fontSize\<rparr>)
      else (case find (usable_font E w fontSize) defaultFontPaths of
              Some p \<Rightarrow> (None, dc\<lparr>fontFace := FontFace p fontSize\<rparr>)
            | None \<Rightarrow> (Some NoSuitableFont, dc)))"
  by (simp add: loadFont_def Let_def try_fonts_find LoadFontFace_def usable_font_def)

lemma find_None_list_ex: "(find P xs = None) = (\<not> list_ex P xs)"
  by (induction xs) simp_all

lemma loadFont_fails:
  "\<not> font_resolves E w fontSize \<Longrightarrow> loadFont E w dc fontSize = (Some NoSuitableFont, dc)"
  using loadFont_eq [of E w dc fontSize]
    find_None_list_ex [of "usable_font E w fontSize" defaultFontPaths]
  by (auto simp: font_resolves_def split: option.splits)

lemma loadFont_ok:
  "font_resolves E w fontSize \<Longrightarrow>
   \<exists>p. loadFont E w dc fontSize = (None, dc\<lparr>fontFace := FontFace p fontSize\<rparr>)"
  using loadFont_eq [of E w dc fontSize]
    find_None_list_ex [of "usable_font E w fontSize" defaultFontPaths]
  by (auto simp: font_resolves_def split: option.splits)

lemma loadFont_keeps:
  "loadFont E w dc fontSize = (r, dc') \<Longrightarrow> im dc' = im dc \<and> painted dc' = painted dc"
  using loadFont_eq [of E w dc fontSize]
  by (auto split: if_splits option.splits)

text \<open>
  Claim C7.  \<open>loadFont\<close> takes the configured font exactly when its path is non-empty,
  the file exists and it parses.  Otherwise it takes the first of the six default
  paths, in their fixed order, whose file exists and parses, and it reports that no
  suitable font was found, leaving the context as it was, if there is none.
\<close>

theorem loadFont_resolution:
  "loadFont E w dc fontSize =
     (if ThumbnailFont E \<noteq> [] \<and> usable_font E w fontSize (ThumbnailFont E)
      then (None, dc\<lparr>fontFace := FontFace (ThumbnailFont E) fontSize\<rparr>)
      else (case find (usable_font E w fontSize) defaultFontPaths of
              Some p \<Rightarrow> (None, dc\<lparr>fontFace := FontFace p fontSize\<rparr>)
            | None \<Rightarrow> (Some NoSuitableFont, dc)))
   \<and> defaultFontPaths =
       [''/usr/share/fonts/truetype/dejavu/DejaVuSans-Bold.ttf'',
        ''/usr/share/fonts/truetype/dejavu/DejaVuSans.ttf'',
        ''/usr/share/fonts/dejavu/DejaVuSans-Bold.ttf'',
        ''/usr/share/fonts/truetype/liberation/LiberationSans-Bold.ttf'',
        ''/System/Library/Fonts/Helvetica.ttc'',
        ''/usr/share/fonts/truetype/ubuntu/Ubuntu-Bold.ttf'']"
  using loadFont_eq [of E w dc fontSize] by (simp add: defaultFontPaths_def)

text \<open>
  Claim C8.  \<open>addOverlay\<close> always returns an image and a nil error.  When no font
  resolves for the title, the image returned is the (resized) input with nothing
  painted on it.  When the title font resolves and the duration font does not, the
  image is the one composed for the same request without a duration text.
  \<open>ProcessThumbnail\<close> never returns a font error.
\<close>

theorem addOverlay_font_failure:
  "(\<exists>r. addOverlay E w img cfg = Inr r)
   \<and> (\<not> font_resolves E w (of_nat (Dx (resize_step E cfg img)) / 25)
        \<longrightarrow> addOverlay E w img cfg = Inr (resize_step E cfg img))
   \<and> (font_resolves E w (of_nat (Dx (resize_step E cfg img)) / 25)
        \<and> \<not> font_resolves E w (of_nat (Dx (resize_step E cfg img)) / 35)
        \<longrightarrow> addOverlay E w img cfg = addOverlay E w img (cfg\<lparr>DurationText := []\<rparr>))
   \<and> fst (ProcessThumbnail E thumbnailURL title duration w) \<noteq> Inl NoSuitableFont
   \<and> fst (ProcessThumbnail E thumbnailURL title duration w) \<noteq> Inl FontParseFailed"
proof -
  have a: "\<not> font_resolves E w (of_nat (Dx (resize_step E cfg img)) / 25)
        \<Longrightarrow> addOverlay E w img cfg = Inr (resize_step E cfg img)"
    by (simp add: addOverlay_def Let_def loadFont_fails)
  have b: "font_resolves E w (of_nat (Dx (resize_step E cfg img)) / 25)
        \<Longrightarrow> \<not> font_resolves E w (of_nat (Dx (resize_step E cfg img)) / 35)
        \<Longrightarrow> addOverlay E w img cfg = addOverlay E w img (cfg\<lparr>DurationText := []\<rparr>)"
  proof -
    assume n: "\<not> font_resolves E w (of_nat (Dx (resize_step E cfg img)) / 35)"
    have rs: "resize_step E (cfg\<lparr>DurationText := []\<rparr>) img = resize_step E cfg img"
      by (simp add: resize_step_def)
    have dt: "\<And>wd h dc. draw_title E (cfg\<lparr>DurationText := []\<rparr>) wd h dc = draw_title E cfg wd h dc"
      by (simp add: draw_title_def)
    show ?thesis
      unfolding addOverlay_def Let_def rs dt
      using loadFont_fails [OF n]
      by (simp split: prod.splits option.splits)
  qed
  have c: "fst (ProcessThumbnail E thumbnailURL title duration w) \<noteq> Inl NoSuitableFont
   \<and> fst (ProcessThumbnail E thumbnailURL title duration w) \<noteq> Inl FontParseFailed"
    using generate_no_font_error [of E thumbnailURL title duration w]
    by (auto simp: ProcessThumbnail_def split: option.splits)
  show ?thesis using a b c addOverlay_Inr by blast
qed

theorem addOverlay_font_failure_witness:
  "addOverlay sample_env sample_world (Decoded 640 360 ''JPEGDATA'')
     ((DefaultThumbnailConfig sample_env)\<lparr>TitleText := ''Song'', DurationText := ''03:05''\<rparr>)
     = Inr (Decoded 640 360 ''JPEGDATA'')
   \<and> addOverlay (sample_env\<lparr>LoadFontFace_ok := (\<lambda>p s. 20 \<le> s)\<rparr>)
        (sample_world\<lparr>files := [''/usr/share/fonts/dejavu/DejaVuSans-Bold.ttf'' \<mapsto> Other]\<rparr>)
        (Decoded 640 360 ''JPEGDATA'')
        ((DefaultThumbnailConfig sample_env)\<lparr>TitleText := ''Song'', DurationText := ''03:05''\<rparr>)
     = addOverlay (sample_env\<lparr>LoadFontFace_ok := (\<lambda>p s. 20 \<le> s)\<rparr>)
        (sample_world\<lparr>files := [''/usr/share/fonts/dejavu/DejaVuSans-Bold.ttf'' \<mapsto> Other]\<rparr>)
        (Decoded 640 360 ''JPEGDATA'')
        ((DefaultThumbnailConfig sample_env)\<lparr>TitleText := ''Song'', DurationText := []\<rparr>)"
proof -
  let ?cfg = "(DefaultThumbnailConfig sample_env)\<lparr>TitleText := ''Song'', DurationText := ''03:05''\<rparr>"
  let ?E = "sample_env\<lparr>LoadFontFace_ok := (\<lambda>p s. 20 \<le> s)\<rparr>"
  let ?w = "sample_world\<lparr>files := [''/usr/share/fonts/dejavu/DejaVuSans-Bold.ttf'' \<mapsto> Other]\<rparr>"
  let ?img = "Decoded 640 360 ''JPEGDATA''"
  have rs: "resize_step sample_env ?cfg ?img = ?img" "resize_step ?E ?cfg ?img = ?img"
    by (simp_all add: resize_step_def DefaultThumbnailConfig_def)
  have n1: "\<not> font_resolves sample_env sample_world (of_nat (Dx (resize_step sample_env ?cfg ?img)) / 25)"
    unfolding rs
    by (simp add: font_resolves_def usable_font_def fileExists_def sample_world_def
        sample_env_def defaultFontPaths_def)
  have y2: "font_resolves ?E ?w (of_nat (Dx (resize_step ?E ?cfg ?img)) / 25)"
    unfolding rs
    by (simp add: font_resolves_def usable_font_def fileExists_def defaultFontPaths_def)
  have n2: "\<not> font_resolves ?E ?w (of_nat (Dx (resize_step ?E ?cfg ?img)) / 35)"
    unfolding rs
    by (simp add: font_resolves_def usable_font_def fileExists_def defaultFontPaths_def
        sample_env_def)
  show ?thesis
    using addOverlay_font_failure [of sample_env sample_world ?img ?cfg]
      addOverlay_font_failure [of ?E ?w ?img ?cfg] n1 y2 n2 rs
    by simp
qed

subsection \<open>Regeneration after a stale cache entry\<close>

text \<open>
  The overlay reads the file system only to look for fonts, so the request logged by
  the download does not change its result.  The output path ends in \<open>.jpg\<close>, so
  \<open>saveImage\<close> takes the JPEG branch.
\<close>

lemma try_fonts_files:
  assumes "files w' = files w"
  shows "try_fonts E w' dc fontSize ps = try_fonts E w dc fontSize ps"
  by (induction ps arbitrary: dc)
     (auto simp: fileExists_def assms split: prod.splits option.splits)

lemma loadFont_files:
  assumes "files w' = files w"
  shows "loadFont E w' dc fontSize = loadFont E w dc fontSize"
proof -
  have t: "\<And>dc ps. try_fonts E w' dc fontSize ps = try_fonts E w dc fontSize ps"
    by (rule try_fonts_files [OF assms])
  show ?thesis
    by (simp add: loadFont_def fileExists_def assms t Let_def split: prod.splits option.splits)
qed

lemma addOverlay_files:
  assumes "files w' = files w"
  shows "addOverlay E w' img cfg = addOverlay E w img cfg"
proof -
  have l: "\<And>dc fontSize. loadFont E w' dc fontSize = loadFont E w dc fontSize"
    by (rule loadFont_files [OF assms])
  show ?thesis unfolding addOverlay_def l by (rule refl)
qed

lemma suffix_same_length: "suffix a (b @ c) \<Longrightarrow> length a = length c \<Longrightarrow> a = c"
  by (auto simp: suffix_def)

lemma output_path_jpg: "\<not> HasSuffix (ToLower (generateOutputPath E w)) ''.png''"
proof
  assume "HasSuffix (ToLower (generateOutputPath E w)) ''.png''"
  then have "suffix ''.png''
      (ToLower (thumbnailDir E @ ''/'' @ ''thumb_'' @ fmt_d (now w)) @ ''.jpg'')"
    by (simp add: HasSuffix_def generateOutputPath_def ToLower_def)
  then have "''.png'' = ''.jpg''" by (rule suffix_same_length) simp
  then show False by simp
qed

lemma saveImage_jpeg:
  assumes "\<not> HasSuffix (ToLower p) ''.png''"
    and "MkdirAll_ok E (filepath_Dir p)" and "Create_ok E p" and "jpeg_Encode_ok E img q"
  shows "\<exists>w'. saveImage E img p q w = (None, w') \<and> files w' p = Some (JPEG img q)
          \<and> thumbnailCache w' = thumbnailCache w \<and> now w' = now w \<and> requests w' = requests w"
  using assms by (simp add: saveImage_def Let_def MkdirAll_def)

lemma generate_success:
  assumes dl: "fst (downloadImage E u w) = Inr img"
    and im: "(if ThumbnailOverlay E
              then addOverlay E w img ((DefaultThumbnailConfig E)\<lparr>TitleText := t, DurationText := d\<rparr>)
              else Inr img) = Inr pimg"
    and mk: "MkdirAll_ok E (filepath_Dir (generateOutputPath E w))"
    and cr: "Create_ok E (generateOutputPath E w)"
    and en: "jpeg_Encode_ok E pimg (if ThumbnailOverlay E then 85 else 95)"
  shows "fst (generate E u t d w) = Inr (generateOutputPath E w)
       \<and> files (snd (generate E u t d w)) (generateOutputPath E w)
           = Some (JPEG pimg (if ThumbnailOverlay E then 85 else 95))
       \<and> items (thumbnailCache (snd (generate E u t d w))) (cacheKey u t d)
           = Some (generateOutputPath E w, now w + ttl (thumbnailCache w))
       \<and> now (snd (generate E u t d w)) = now w"
proof -
  define w1 where "w1 = w\<lparr>requests := requests w @ [CleanURL E u]\<rparr>"
  have d1: "downloadImage E u w = (Inr img, w1)"
    using dl downloadImage_world [of E u w] unfolding w1_def by (simp add: prod_eq_iff)
  have o: "generateOutputPath E w1 = generateOutputPath E w"
    by (simp add: generateOutputPath_def w1_def)
  have f1: "files w1 = files w" by (simp add: w1_def)
  define q :: int where "q = (if ThumbnailOverlay E then 85 else 95)"
  obtain w2 where s: "saveImage E pimg (generateOutputPath E w) q w1 = (None, w2)"
    "files w2 (generateOutputPath E w) = Some (JPEG pimg q)"
    "thumbnailCache w2 = thumbnailCache w1" "now w2 = now w1"
    using saveImage_jpeg [OF output_path_jpg mk cr, of pimg q w1] en unfolding q_def by auto
  have c: "thumbnailCache w1 = thumbnailCache w" "now w1 = now w" by (simp_all add: w1_def)
  show ?thesis
  proof (cases "ThumbnailOverlay E")
    case True
    then have a: "addOverlay E w1 img ((DefaultThumbnailConfig E)\<lparr>TitleText := t, DurationText := d\<rparr>)
        = Inr pimg"
      using im addOverlay_files [OF f1] by simp
    have q85: "q = 85" using True by (simp add: q_def)
    show ?thesis
      using True d1 a s c unfolding q85
      by (simp add: generate_def Let_def o DefaultThumbnailConfig_def cache_Set_def)
  next
    case False
    then have p: "pimg = img" using im by simp
    have q95: "q = 95" using False by (simp add: q_def)
    show ?thesis
      using False d1 s c unfolding q95 p
      by (simp add: generate_def Let_def o cache_Set_def)
  qed
qed

lemma generate_error_keeps_cache:
  assumes "generate E u t d w = (Inl e, w')"
  shows "thumbnailCache w' = thumbnailCache w"
proof -
  obtain r w1 where dl: "downloadImage E u w = (r, w1)" by (cases "downloadImage E u w")
  then have w1: "w1 = w\<lparr>requests := requests w @ [CleanURL E u]\<rparr>"
    using downloadImage_world [of E u w] by simp
  show ?thesis
  proof (cases r)
    case (Inl e')
    then show ?thesis using assms dl w1 by (auto simp: generate_def)
  next
    case (Inr img)
    obtain pim where a:
      "addOverlay E w1 img ((DefaultThumbnailConfig E)\<lparr>TitleText := t, DurationText := d\<rparr>) = Inr pim"
      using addOverlay_Inr by blast
    show ?thesis using assms dl Inr w1 a
      by (auto simp: generate_def Let_def split: prod.splits option.splits if_splits
          dest!: saveImage_keeps)
  qed
qed

lemma generate_ttl: "ttl (thumbnailCache (snd (generate E u t d w))) = ttl (thumbnailCache w)"
proof -
  obtain r w1 where dl: "downloadImage E u w = (r, w1)" by (cases "downloadImage E u w")
  then have w1: "w1 = w\<lparr>requests := requests w @ [CleanURL E u]\<rparr>"
    using downloadImage_world [of E u w] by simp
  show ?thesis
  proof (cases r)
    case (Inl e')
    then show ?thesis using dl w1 by (auto simp: generate_def)
  next
    case (Inr img)
    obtain pim where a:
      "addOverlay E w1 img ((DefaultThumbnailConfig E)\<lparr>TitleText := t, DurationText := d\<rparr>) = Inr pim"
      using addOverlay_Inr by blast
    show ?thesis using dl Inr w1 a
      by (auto simp: generate_def Let_def cache_Set_def
          split: prod.splits option.splits if_splits dest!: saveImage_keeps)
  qed
qed

text \<open>
  Claim C1.  For a non-empty URL: when the cache finds an entry for the key of the
  request and the file it names exists, \<open>ProcessThumbnail\<close> returns that path with a
  nil error and leaves the state as it was (no request is logged, cache and files are
  unchanged), whatever the environment would answer.  When the entry's file does not
  exist, the call goes on exactly as on a miss: it downloads (one request is logged)
  and generates.  Every path \<open>ProcessThumbnail\<close> returns names a file that exists when
  it returns.  The regeneration after a stale entry produces the thumbnail: when the
  download gives an image, the directory and the file can be created and the encoder
  succeeds, the call returns the fresh output path with a nil error, that path holds
  the JPEG of the processed image (the output of \<open>addOverlay\<close> at quality 85, or the
  downloaded image at quality 95 when the overlay is disabled), and the cache entry
  of the key is overwritten with the fresh path and the expiry \<open>now + TTL\<close>, so that
  the next lookup finds the fresh path.  A call that returns an error leaves the
  cache as it was.
\<close>

theorem ProcessThumbnail_cache_lookup:
  assumes "thumbnailURL \<noteq> []"
  shows "(\<forall>cached.
            cache_Get (thumbnailCache w) (now w) (cacheKey thumbnailURL title duration) = Some cached
            \<and> fileExists w cached
            \<longrightarrow> ProcessThumbnail E thumbnailURL title duration w = (Inr cached, w))
       \<and> (\<forall>cached.
            cache_Get (thumbnailCache w) (now w) (cacheKey thumbnailURL title duration) = Some cached
            \<and> \<not> fileExists w cached
            \<longrightarrow> ProcessThumbnail E thumbnailURL title duration w
                = generate E thumbnailURL title duration w)
       \<and> requests (snd (generate E thumbnailURL title duration w))
           = requests w @ [CleanURL E thumbnailURL]
       \<and> (\<forall>p w'. ProcessThumbnail E thumbnailURL title duration w = (Inr p, w')
            \<longrightarrow> fileExists w' p)
       \<and> (\<forall>cached img processedImg.
            cache_Get (thumbnailCache w) (now w) (cacheKey thumbnailURL title duration) = Some cached
            \<and> \<not> fileExists w cached
            \<and> fst (downloadImage E thumbnailURL w) = Inr img
            \<and> (if ThumbnailOverlay E
                then addOverlay E w img
                       ((DefaultThumbnailConfig E)\<lparr>TitleText := title, DurationText := duration\<rparr>)
                else Inr img) = Inr processedImg
            \<and> MkdirAll_ok E (filepath_Dir (generateOutputPath E w))
            \<and> Create_ok E (generateOutputPath E w)
            \<and> jpeg_Encode_ok E processedImg (if ThumbnailOverlay E then 85 else 95)
            \<longrightarrow> fst (ProcessThumbnail E thumbnailURL title duration w)
                  = Inr (generateOutputPath E w)
                \<and> files (snd (ProcessThumbnail E thumbnailURL title duration w))
                    (generateOutputPath E w)
                  = Some (JPEG processedImg (if ThumbnailOverlay E then 85 else 95))
                \<and> items (thumbnailCache (snd (ProcessThumbnail E thumbnailURL title duration w)))
                    (cacheKey thumbnailURL title duration)
                  = Some (generateOutputPath E w, now w + ttl (thumbnailCache w))
                \<and> (0 \<le> ttl (thumbnailCache w)
                    \<longrightarrow> cache_Get
                          (thumbnailCache (snd (ProcessThumbnail E thumbnailURL title duration w)))
                          (now (snd (ProcessThumbnail E thumbnailURL title duration w)))
                          (cacheKey thumbnailURL title duration)
                        = Some (generateOutputPath E w)))
       \<and> (\<forall>e w'. ProcessThumbnail E thumbnailURL title duration w = (Inl e, w')
            \<longrightarrow> thumbnailCache w' = thumbnailCache w)"
proof -
  let ?P = "ProcessThumbnail E thumbnailURL title duration w"
  let ?G = "generate E thumbnailURL title duration w"
  let ?key = "cacheKey thumbnailURL title duration"
  let ?out = "generateOutputPath E w"
  let ?q = "if ThumbnailOverlay E then 85 else 95 :: int"
  have hit: "\<And>cached.
      cache_Get (thumbnailCache w) (now w) ?key = Some cached
      \<Longrightarrow> fileExists w cached \<Longrightarrow> ?P = (Inr cached, w)"
    using assms by (simp add: ProcessThumbnail_def)
  have stale: "\<And>cached.
      cache_Get (thumbnailCache w) (now w) ?key = Some cached
      \<Longrightarrow> \<not> fileExists w cached \<Longrightarrow> ?P = ?G"
    using assms by (simp add: ProcessThumbnail_def)
  have exists: "\<And>p w'. ?P = (Inr p, w') \<Longrightarrow> fileExists w' p"
    using assms generate_path_exists
    by (auto simp: ProcessThumbnail_def split: option.splits if_splits)
  have regen: "fst ?P = Inr ?out
        \<and> files (snd ?P) ?out = Some (JPEG processedImg ?q)
        \<and> items (thumbnailCache (snd ?P)) ?key = Some (?out, now w + ttl (thumbnailCache w))
        \<and> (0 \<le> ttl (thumbnailCache w)
            \<longrightarrow> cache_Get (thumbnailCache (snd ?P)) (now (snd ?P)) ?key = Some ?out)"
    if c: "cache_Get (thumbnailCache w) (now w) ?key = Some cached"
      and n: "\<not> fileExists w cached"
      and dl: "fst (downloadImage E thumbnailURL w) = Inr img"
      and im: "(if ThumbnailOverlay E
                then addOverlay E w img
                       ((DefaultThumbnailConfig E)\<lparr>TitleText := title, DurationText := duration\<rparr>)
                else Inr img) = Inr processedImg"
      and mk: "MkdirAll_ok E (filepath_Dir ?out)"
      and cr: "Create_ok E ?out"
      and en: "jpeg_Encode_ok E processedImg ?q"
    for cached img processedImg
  proof -
    have pg: "?P = ?G" by (rule stale [OF c n])
    have g: "fst ?G = Inr ?out"
      "files (snd ?G) ?out = Some (JPEG processedImg ?q)"
      "items (thumbnailCache (snd ?G)) ?key = Some (?out, now w + ttl (thumbnailCache w))"
      "now (snd ?G) = now w"
      using generate_success [OF dl im mk cr en] by simp_all
    have t: "ttl (thumbnailCache (snd ?G)) = ttl (thumbnailCache w)" by (rule generate_ttl)
    have "cache_Get (thumbnailCache (snd ?G)) (now (snd ?G)) ?key = Some ?out"
      if "0 \<le> ttl (thumbnailCache w)"
      using that g(3) by (simp add: cache_Get_def g(4))
    then show ?thesis unfolding pg using g by simp
  qed
  have err: "\<And>e w'. ?P = (Inl e, w') \<Longrightarrow> thumbnailCache w' = thumbnailCache w"
    using assms generate_error_keeps_cache
    by (auto simp: ProcessThumbnail_def split: option.splits if_splits)
  show ?thesis
    apply (intro conjI allI impI)
    subgoal for cached using hit by blast
    subgoal for cached using stale by blast
    subgoal by (rule generate_requests)
    subgoal for p w' using exists by blast
    subgoal for cached img processedImg using regen [of cached img processedImg] by blast
    subgoal for cached img processedImg using regen [of cached img processedImg] by blast
    subgoal for cached img processedImg using regen [of cached img processedImg] by blast
    subgoal for cached img processedImg using regen [of cached img processedImg] by blast
    subgoal for e w' using err by blast
    done
qed

theorem ProcessThumbnail_cache_lookup_witness:
  "ProcessThumbnail sample_env ''https://host/ok.jpg'' ''Song'' ''03:05'' sample_world
     = (Inr ''/tmp/yukki_thumbnails/thumb_0.jpg'', sample_world)
   \<and> ProcessThumbnail sample_env ''https://host/ok.jpg'' ''Song'' ''03:05''
       (sample_world\<lparr>files := Map.empty\<rparr>)
     = generate sample_env ''https://host/ok.jpg'' ''Song'' ''03:05''
         (sample_world\<lparr>files := Map.empty\<rparr>)
   \<and> fst (ProcessThumbnail sample_env ''https://host/ok.jpg'' ''Song'' ''03:05''
       (sample_world\<lparr>files := Map.empty\<rparr>))
     = Inr ''/tmp/yukki_thumbnails/thumb_1000.jpg''
   \<and> files (snd (ProcessThumbnail sample_env ''https://host/ok.jpg'' ''Song'' ''03:05''
       (sample_world\<lparr>files := Map.empty\<rparr>))) ''/tmp/yukki_thumbnails/thumb_1000.jpg''
     = Some (JPEG (Decoded 640 360 ''JPEGDATA'') 85)
   \<and> cache_Get (thumbnailCache (snd (ProcessThumbnail sample_env ''https://host/ok.jpg'' ''Song''
       ''03:05'' (sample_world\<lparr>files := Map.empty\<rparr>))))
       (now (snd (ProcessThumbnail sample_env ''https://host/ok.jpg'' ''Song''
       ''03:05'' (sample_world\<lparr>files := Map.empty\<rparr>))))
       (cacheKey ''https://host/ok.jpg'' ''Song'' ''03:05'')
     = Some ''/tmp/yukki_thumbnails/thumb_1000.jpg''"
proof -
  let ?u = "''https://host/ok.jpg''"
  let ?w = "sample_world\<lparr>files := Map.empty\<rparr>"
  let ?img = "Decoded 640 360 ''JPEGDATA''"
  let ?cfg = "(DefaultThumbnailConfig sample_env)\<lparr>TitleText := ''Song'', DurationText := ''03:05''\<rparr>"
  have u: "?u \<noteq> []" by simp
  have g: "cache_Get (thumbnailCache sample_world) (now sample_world)
             (cacheKey ?u ''Song'' ''03:05'') = Some ''/tmp/yukki_thumbnails/thumb_0.jpg''"
    by (simp add: sample_world_def cache_Get_def cache_Set_def NewCache_def)
  have g': "cache_Get (thumbnailCache ?w) (now ?w) (cacheKey ?u ''Song'' ''03:05'')
           = Some ''/tmp/yukki_thumbnails/thumb_0.jpg''"
    using g by simp
  have e: "fileExists sample_world ''/tmp/yukki_thumbnails/thumb_0.jpg''"
    by (simp add: sample_world_def fileExists_def)
  have ne: "\<not> fileExists ?w ''/tmp/yukki_thumbnails/thumb_0.jpg''"
    by (simp add: fileExists_def)
  have dl: "fst (downloadImage sample_env ?u ?w) = Inr ?img"
    by (simp add: downloadImage_def sample_env_def Let_def)
  have rs: "resize_step sample_env ?cfg ?img = ?img"
    by (simp add: resize_step_def DefaultThumbnailConfig_def)
  have nf: "\<not> font_resolves sample_env ?w (of_nat (Dx (resize_step sample_env ?cfg ?img)) / 25)"
    unfolding rs
    by (simp add: font_resolves_def usable_font_def fileExists_def sample_env_def
        defaultFontPaths_def)
  have ov: "ThumbnailOverlay sample_env" by (simp add: sample_env_def)
  have im: "(if ThumbnailOverlay sample_env then addOverlay sample_env ?w ?img ?cfg else Inr ?img)
      = Inr ?img"
    using nf rs by (simp add: ov addOverlay_def Let_def loadFont_fails)
  have out: "generateOutputPath sample_env ?w = ''/tmp/yukki_thumbnails/thumb_1000.jpg''"
    by (simp add: generateOutputPath_def sample_env_def sample_world_def fmt_d_def digits.simps
        digit_char_def)
  have ok: "MkdirAll_ok sample_env (filepath_Dir (generateOutputPath sample_env ?w))"
    "Create_ok sample_env (generateOutputPath sample_env ?w)"
    "jpeg_Encode_ok sample_env ?img (if ThumbnailOverlay sample_env then 85 else 95)"
    by (simp_all add: sample_env_def)
  have nw: "now ?w = 1000" "0 \<le> ttl (thumbnailCache ?w)"
    by (simp_all add: sample_world_def cache_Set_def NewCache_def)
  have q: "(if ThumbnailOverlay sample_env then 85 else 95 :: int) = 85" using ov by simp
  show ?thesis
    using ProcessThumbnail_cache_lookup [OF u, of sample_world "''Song''" "''03:05''" sample_env]
      ProcessThumbnail_cache_lookup [OF u, of ?w "''Song''" "''03:05''" sample_env]
      g g' e ne dl im ok nw(2) unfolding out q
    by blast
qed

section \<open>Properties of the gradient and of the resize step\<close>

text \<open>
  What one iteration of the gradient loop paints in row \<open>k\<close>, and the rows for an
  image of a given size: row \<open>k\<close> starts \<open>k\<close> pixels below the top edge of the band,
  at three quarters of the height; its alpha is the value of the code's expression
  \<open>uint8((i / gradientHeight) * 180)\<close> in \<open>float64\<close> for \<open>i = k\<close>.
\<close>

definition gradient_row :: "rat \<Rightarrow> nat \<Rightarrow> nat \<Rightarrow> nat \<Rightarrow> paint" where
  "gradient_row g width height k =
     Filled [(0, of_nat height - g + of_nat k, of_nat width, 1)]
       (RGBA 0 0 0 (uint8 (float64_mul (float64_div (of_nat k) g) 180)))"

definition ramp_value :: "nat \<Rightarrow> nat \<Rightarrow> rat" where
  "ramp_value height k = float64_mul (float64_div (of_nat k) (of_nat height * (1 / 4))) 180"

definition ramp_alpha :: "nat \<Rightarrow> nat \<Rightarrow> nat" where
  "ramp_alpha height k = uint8 (ramp_value height k)"

definition gradient_rows :: "nat \<Rightarrow> nat \<Rightarrow> paint list" where
  "gradient_rows width height =
     map (\<lambda>k. Filled [(0, of_nat height - of_nat height / 4 + of_nat k, of_nat width, 1)]
                 (RGBA 0 0 0 (ramp_alpha height k)))
       [0..<(height + 3) div 4]"

lemma fill_rectangle:
  "path dc = [] \<Longrightarrow>
   Fill (DrawRectangle (SetColor dc c) x y w h)
     = dc\<lparr>painted := painted dc @ [Filled [(x, y, w, h)] c], color := c\<rparr>"
  by (cases dc) (simp add: Fill_def DrawRectangle_def SetColor_def)

lemma gradient_loop_step:
  assumes "path dc = []" and "of_nat k < g"
  shows "gradient_loop g width height (of_nat k) dc =
         gradient_loop g width height (of_nat (Suc k))
           (dc\<lparr>painted := painted dc @ [gradient_row g width height k],
               color := RGBA 0 0 0 (uint8 (float64_mul (float64_div (of_nat k) g) 180))\<rparr>)"
proof -
  have "gradient_loop g width height (of_nat k) dc =
        gradient_loop g width height (of_nat k + 1)
          (Fill (DrawRectangle (SetColor dc (RGBA 0 0 0 (uint8 (float64_mul (float64_div (of_nat k) g) 180))))
             0 (of_nat height - g + of_nat k) (of_nat width) 1))"
    using assms(2) by (subst gradient_loop.simps) (simp only: Let_def if_True)
  moreover have "of_nat (Suc k) = (of_nat k :: rat) + 1" by simp
  ultimately show ?thesis
    by (simp only: fill_rectangle [OF assms(1)] gradient_row_def)
qed

lemma gradient_loop_done:
  "\<not> of_nat k < g \<Longrightarrow> gradient_loop g width height (of_nat k) dc = dc"
  by (subst gradient_loop.simps) simp

lemma of_nat_less_rat_iff: "(of_nat k < (g::rat)) = (k < nat \<lceil>g\<rceil>)"
proof -
  have "(of_nat k < g) = (of_int (int k) < g)" by simp
  also have "\<dots> = (int k < \<lceil>g\<rceil>)" by (simp only: less_ceiling_iff)
  also have "\<dots> = (k < nat \<lceil>g\<rceil>)" by (simp add: zless_nat_eq_int_zless)
  finally show ?thesis .
qed

lemma gradient_loop_rows:
  assumes "path dc = []"
  shows "painted (gradient_loop g width height (of_nat k) dc)
           = painted dc @ map (gradient_row g width height) [k..<nat \<lceil>g\<rceil>]
       \<and> im (gradient_loop g width height (of_nat k) dc) = im dc
       \<and> fontFace (gradient_loop g width height (of_nat k) dc) = fontFace dc"
  using assms
proof (induction "nat \<lceil>g\<rceil> - k" arbitrary: k dc)
  case 0
  then have "\<not> of_nat k < g" by (simp add: of_nat_less_rat_iff)
  then show ?case using 0 by (simp add: gradient_loop_done)
next
  case (Suc n)
  then have lt: "k < nat \<lceil>g\<rceil>" by simp
  then have kg: "of_nat k < g" by (simp add: of_nat_less_rat_iff)
  have n: "n = nat \<lceil>g\<rceil> - Suc k" using Suc(2) by simp
  let ?dc = "dc\<lparr>painted := painted dc @ [gradient_row g width height k],
               color := RGBA 0 0 0 (uint8 (float64_mul (float64_div (of_nat k) g) 180))\<rparr>"
  have p: "path ?dc = []" using Suc(3) by simp
  have up: "[k..<nat \<lceil>g\<rceil>] = k # [Suc k..<nat \<lceil>g\<rceil>]"
    using lt by (simp add: upt_conv_Cons)
  have step: "gradient_loop g width height (of_nat k) dc
      = gradient_loop g width height (of_nat (Suc k)) ?dc"
    by (rule gradient_loop_step [OF Suc(3) kg])
  have ih: "painted (gradient_loop g width height (of_nat (Suc k)) ?dc)
           = painted ?dc @ map (gradient_row g width height) [Suc k..<nat \<lceil>g\<rceil>]
       \<and> im (gradient_loop g width height (of_nat (Suc k)) ?dc) = im ?dc
       \<and> fontFace (gradient_loop g width height (of_nat (Suc k)) ?dc) = fontFace ?dc"
    by (rule Suc(1) [OF n p])
  show ?case unfolding step up using ih by simp
qed

lemma row_count: "nat \<lceil>(of_nat h :: rat) * (1 / 4)\<rceil> = (h + 3) div 4"
proof -
  have "\<lceil>(of_nat h :: rat) * (1 / 4)\<rceil> = \<lceil>(of_int (int h) :: rat) / of_int 4\<rceil>" by simp
  also have "\<dots> = - ((- int h) div 4)" by (simp only: ceiling_divide_eq_div)
  also have "\<dots> = (int h + 3) div 4" by presburger
  finally show ?thesis by (simp add: nat_div_distrib)
qed

lemma round_half_even_bounds: "\<lfloor>q\<rfloor> \<le> round_half_even q \<and> round_half_even q \<le> \<lceil>q\<rceil>"
proof -
  have "q - of_int \<lfloor>q\<rfloor> \<noteq> 0 \<Longrightarrow> \<lceil>q\<rceil> = \<lfloor>q\<rfloor> + 1"
    by (metis ceiling_altdef diff_eq_diff_eq diff_self)
  moreover have "0 \<le> q - of_int \<lfloor>q\<rfloor>" by simp
  moreover have "\<lfloor>q\<rfloor> \<le> \<lceil>q\<rceil>" by (rule floor_le_ceiling)
  ultimately show ?thesis
    by (auto simp: round_half_even_def Let_def)
qed

lemma round_half_even_ge:
  assumes "of_int N \<le> q"
  shows "N \<le> round_half_even q"
proof -
  have "N \<le> \<lfloor>q\<rfloor>" using assms by (simp add: le_floor_iff)
  then show ?thesis using round_half_even_bounds [of q] by linarith
qed

lemma round_half_even_le:
  assumes "q \<le> of_int N"
  shows "round_half_even q \<le> N"
proof -
  have "\<lceil>q\<rceil> \<le> N" using assms by (simp add: ceiling_le_iff)
  then show ?thesis using round_half_even_bounds [of q] by linarith
qed

lemma round_half_even_mono:
  assumes "q \<le> q'"
  shows "round_half_even q \<le> round_half_even q'"
proof (cases "\<lfloor>q\<rfloor> = \<lfloor>q'\<rfloor>")
  case True
  then have "q - of_int \<lfloor>q\<rfloor> \<le> q' - of_int \<lfloor>q'\<rfloor>" using assms by simp
  then show ?thesis using True by (auto simp: round_half_even_def Let_def)
next
  case False
  then have "\<lfloor>q\<rfloor> < \<lfloor>q'\<rfloor>" using floor_mono [OF assms] by simp
  moreover have "q - of_int \<lfloor>q\<rfloor> < 1" by linarith
  ultimately have "round_half_even q \<le> \<lfloor>q'\<rfloor>"
    by (auto simp: round_half_even_def Let_def)
  then show ?thesis using round_half_even_bounds [of q'] by simp
qed

lemma binade_bounds:
  assumes "0 < x"
  shows "power_int 2 (binade x) \<le> x \<and> x < power_int 2 (binade x + 1)"
proof (cases "1 \<le> x")
  case True
  define n where "n = \<lfloor>x\<rfloor>"
  have n: "0 < n" using True unfolding n_def by simp
  define b where "b = bitlen n"
  have bb: "2 ^ nat (b - 1) \<le> n" "n < 2 ^ nat b" using bitlen_bounds [OF n] unfolding b_def by auto
  have b1: "1 \<le> b" using n bitlen_nonneg [of n] bitlen_eq_zero_iff [of n] unfolding b_def by linarith
  have e: "binade x = b - 1" using True by (simp add: binade_def b_def n_def)
  have "(of_int (2 ^ nat (b - 1)) :: rat) \<le> of_int n" using bb(1) by (simp only: of_int_le_iff)
  also have "\<dots> \<le> x" unfolding n_def by simp
  finally have lo: "(2 :: rat) ^ nat (b - 1) \<le> x" by simp
  have "n + 1 \<le> 2 ^ nat b" using bb(2) by simp
  then have "(of_int (n + 1) :: rat) \<le> of_int (2 ^ nat b)" by (simp only: of_int_le_iff)
  moreover have "x < of_int (n + 1)" unfolding n_def by linarith
  ultimately have hi: "x < (2 :: rat) ^ nat b" by simp
  have p1: "power_int (2::rat) (b - 1) = 2 ^ nat (b - 1)" using b1 by (simp add: power_int_def)
  have p2: "power_int (2::rat) (b - 1 + 1) = 2 ^ nat b" using b1 by (simp add: power_int_def)
  show ?thesis unfolding e p1 p2 using lo hi by simp
next
  case False
  then have x1: "x < 1" by simp
  define y where "y = 1 / x"
  have y1: "1 < y" using assms x1 unfolding y_def by simp
  define c where "c = \<lceil>y\<rceil> - 1"
  have c: "0 < c" using y1 unfolding c_def by linarith
  define b where "b = bitlen c"
  have bb: "2 ^ nat (b - 1) \<le> c" "c < 2 ^ nat b" using bitlen_bounds [OF c] unfolding b_def by auto
  have b1: "1 \<le> b" using c bitlen_nonneg [of c] bitlen_eq_zero_iff [of c] unfolding b_def by linarith
  have e: "binade x = - b" using False by (simp add: binade_def b_def c_def y_def)
  have cy: "of_int c < y" "y \<le> of_int c + 1" unfolding c_def by linarith+
  have "c + 1 \<le> 2 ^ nat b" using bb(2) by simp
  then have "(of_int (c + 1) :: rat) \<le> of_int (2 ^ nat b)" by (simp only: of_int_le_iff)
  then have yhi: "y \<le> (2 :: rat) ^ nat b" using cy(2) by simp
  have "(of_int (2 ^ nat (b - 1)) :: rat) \<le> of_int c" using bb(1) by (simp only: of_int_le_iff)
  then have "(2 :: rat) ^ nat (b - 1) \<le> of_int c" by (simp only: of_int_power of_int_numeral)
  then have ylo: "(2 :: rat) ^ nat (b - 1) < y" using cy(1) by linarith
  have xy: "x = 1 / y" unfolding y_def by simp
  have lo: "1 / (2 :: rat) ^ nat b \<le> x" unfolding xy using yhi y1
    by (simp add: frac_le)
  have hi: "x < 1 / (2 :: rat) ^ nat (b - 1)" unfolding xy using ylo
    by (simp add: frac_less2)
  have p1: "power_int (2::rat) (- b) = 1 / 2 ^ nat b" using b1 by (simp add: power_int_def field_simps)
  have p2: "power_int (2::rat) (- b + 1) = 1 / 2 ^ nat (b - 1)"
  proof -
    have "- b + 1 = - (b - 1)" by simp
    moreover have "power_int (2::rat) (- (b - 1)) = 1 / 2 ^ nat (b - 1)"
      using b1 by (simp add: power_int_def field_simps)
    ultimately show ?thesis by simp
  qed
  show ?thesis unfolding e p1 p2 using lo hi by simp
qed

lemma round_float64_pos:
  "0 < x \<Longrightarrow> round_float64 x
     = of_int (round_half_even (x * power_int 2 (52 - binade x))) * power_int 2 (binade x - 52)"
  by (simp add: round_float64_def Let_def)

lemma pow2_split: "power_int (2::rat) a * power_int 2 (b - a) = power_int 2 b"
  by (simp flip: power_int_add)

lemma round_float64_bounds:
  assumes "0 < x"
  shows "power_int 2 (binade x) \<le> round_float64 x \<and> round_float64 x \<le> power_int 2 (binade x + 1)"
proof -
  define e where "e = binade x"
  define q where "q = x * power_int 2 (52 - e)"
  have b: "power_int 2 e \<le> x" "x < power_int 2 (e + 1)"
    using binade_bounds [OF assms] unfolding e_def by auto
  have pos: "0 < power_int (2::rat) (52 - e)" "0 < power_int (2::rat) (e - 52)" by simp_all
  have "power_int 2 e * power_int 2 (52 - e) \<le> q"
    unfolding q_def using b(1) pos(1) by (simp only: mult_le_cancel_right_pos)
  then have "power_int (2::rat) 52 \<le> q" by (simp only: pow2_split)
  then have "of_int (2 ^ 52) \<le> q" by simp
  then have lo: "2 ^ 52 \<le> round_half_even q" by (rule round_half_even_ge)
  have "q < power_int 2 (e + 1) * power_int 2 (52 - e)"
    unfolding q_def using b(2) pos(1) by (simp only: mult_less_cancel_right_pos)
  moreover have "power_int (2::rat) (e + 1) * power_int 2 (52 - e) = power_int 2 53"
    using pow2_split [of "e + 1" 53] by simp
  ultimately have "q \<le> of_int (2 ^ 53)" by simp
  then have hi: "round_half_even q \<le> 2 ^ 53" by (rule round_half_even_le)
  have r: "round_float64 x = of_int (round_half_even q) * power_int 2 (e - 52)"
    unfolding q_def e_def by (rule round_float64_pos [OF assms])
  have "(of_int (2 ^ 52) :: rat) \<le> of_int (round_half_even q)" using lo by (simp only: of_int_le_iff)
  then have "of_int (2 ^ 52) * power_int 2 (e - 52) \<le> round_float64 x"
    unfolding r using pos(2) by (simp only: mult_le_cancel_right_pos)
  moreover have "(of_int (2 ^ 52) :: rat) * power_int 2 (e - 52) = power_int 2 e"
    using pow2_split [of 52 e] by simp
  ultimately have l: "power_int 2 e \<le> round_float64 x" by simp
  have "(of_int (round_half_even q) :: rat) \<le> of_int (2 ^ 53)" using hi by (simp only: of_int_le_iff)
  then have "round_float64 x \<le> of_int (2 ^ 53) * power_int 2 (e - 52)"
    unfolding r using pos(2) by (simp only: mult_le_cancel_right_pos)
  moreover have "(of_int (2 ^ 53) :: rat) * power_int 2 (e - 52) = power_int 2 (e + 1)"
    using pow2_split [of 53 "e + 1"] by simp
  ultimately have h: "round_float64 x \<le> power_int 2 (e + 1)" by simp
  show ?thesis using l h unfolding e_def by simp
qed

lemma binade_mono:
  assumes "0 < x" and "x \<le> y"
  shows "binade x \<le> binade y"
proof (rule ccontr)
  assume "\<not> binade x \<le> binade y"
  then have "binade y + 1 \<le> binade x" by simp
  then have "power_int (2::rat) (binade y + 1) \<le> power_int 2 (binade x)"
    by (simp add: power_int_increasing)
  moreover have "power_int 2 (binade x) \<le> x" using binade_bounds [OF assms(1)] by simp
  moreover have "y < power_int 2 (binade y + 1)" using binade_bounds [of y] assms by simp
  ultimately show False using assms(2) by linarith
qed

lemma round_float64_mono_pos:
  assumes "0 < x" and "x \<le> y"
  shows "round_float64 x \<le> round_float64 y"
proof (cases "binade x = binade y")
  case True
  have y: "0 < y" using assms by simp
  have "x * power_int 2 (52 - binade y) \<le> y * power_int 2 (52 - binade y)"
    using assms(2) by (simp add: mult_right_mono)
  then have "round_half_even (x * power_int 2 (52 - binade y))
      \<le> round_half_even (y * power_int 2 (52 - binade y))"
    by (rule round_half_even_mono)
  then have "(of_int (round_half_even (x * power_int 2 (52 - binade y))) :: rat)
      \<le> of_int (round_half_even (y * power_int 2 (52 - binade y)))"
    by (simp only: of_int_le_iff)
  then show ?thesis
    unfolding round_float64_pos [OF assms(1)] round_float64_pos [OF y] True
    by (simp add: mult_right_mono)
next
  case False
  have y: "0 < y" using assms by simp
  have "binade x + 1 \<le> binade y" using False binade_mono [OF assms] by simp
  then have "power_int (2::rat) (binade x + 1) \<le> power_int 2 (binade y)"
    by (simp add: power_int_increasing)
  then show ?thesis
    using round_float64_bounds [OF assms(1)] round_float64_bounds [OF y] by linarith
qed

lemma round_float64_zero: "round_float64 0 = 0"
  by (simp add: round_float64_def)

lemma round_float64_nonneg: "0 \<le> x \<Longrightarrow> 0 \<le> round_float64 x"
proof (cases "x = 0")
  case True
  then show ?thesis by (simp add: round_float64_zero)
next
  case False
  assume "0 \<le> x"
  then have x: "0 < x" using False by simp
  have "0 < power_int (2::rat) (binade x)" by simp
  then show ?thesis using round_float64_bounds [OF x] by linarith
qed

lemma round_float64_mono:
  assumes "0 \<le> x" and "x \<le> y"
  shows "round_float64 x \<le> round_float64 y"
proof (cases "x = 0")
  case True
  then show ?thesis using round_float64_nonneg [of y] assms by (simp add: round_float64_zero)
next
  case False
  then have "0 < x" using assms(1) by simp
  then show ?thesis using assms(2) by (rule round_float64_mono_pos)
qed

lemma ramp_alpha_value: "ramp_alpha h k = uint8 (ramp_value h k)"
  by (simp add: ramp_alpha_def)

lemma row_in_band: "k < (h + 3) div 4 \<Longrightarrow> 4 * k < (h::nat)"
  by presburger

lemma round_one_minus: "round_float64 (1 - 1 / 2 ^ 31) = 1 - 1 / 2 ^ 31"
  by code_simp

lemma round_180_minus: "round_float64 ((1 - 1 / 2 ^ 31) * 180) = (1 - 1 / 2 ^ 31) * 180"
  by code_simp

lemma quotient_below_one:
  assumes "k < (h + 3) div 4" and "h < 2 ^ 31"
  shows "(of_nat k :: rat) / (of_nat h * (1 / 4)) \<le> 1 - 1 / 2 ^ 31"
proof -
  have k: "4 * k + 1 \<le> h" using row_in_band [OF assms(1)] by simp
  then have h: "0 < h" by simp
  have "(of_nat (4 * k + 1) :: rat) \<le> of_nat h" using k by (simp only: of_nat_le_iff)
  then have "(of_nat k :: rat) * 4 \<le> of_nat h - 1" by simp
  then have "(of_nat k :: rat) * 4 / of_nat h \<le> (of_nat h - 1) / of_nat h"
    using h by (simp add: divide_right_mono)
  also have "\<dots> = 1 - 1 / of_nat h" using h by (simp add: field_simps)
  also have "\<dots> \<le> 1 - 1 / 2 ^ 31"
  proof -
    have "(of_nat h :: rat) \<le> of_nat (2 ^ 31)" using assms(2) by (simp only: of_nat_le_iff less_imp_le)
    then have "(of_nat h :: rat) \<le> 2 ^ 31" by simp
    then have "1 / (2 :: rat) ^ 31 \<le> 1 / of_nat h" using h by (simp add: frac_le)
    then show ?thesis by simp
  qed
  finally show ?thesis by simp
qed

lemma ramp_value_bounds:
  assumes "k < (h + 3) div 4" and "h < 2 ^ 31"
  shows "0 \<le> ramp_value h k \<and> ramp_value h k \<le> (1 - 1 / 2 ^ 31) * 180"
proof -
  let ?x = "(of_nat k :: rat) / (of_nat h * (1 / 4))"
  have x0: "0 \<le> ?x" by simp
  have d0: "0 \<le> float64_div (of_nat k) (of_nat h * (1 / 4))"
    unfolding float64_div_def using x0 by (rule round_float64_nonneg)
  have "float64_div (of_nat k) (of_nat h * (1 / 4)) \<le> round_float64 (1 - 1 / 2 ^ 31)"
    unfolding float64_div_def using x0 quotient_below_one [OF assms] by (rule round_float64_mono)
  then have d1: "float64_div (of_nat k) (of_nat h * (1 / 4)) \<le> 1 - 1 / 2 ^ 31"
    by (simp only: round_one_minus)
  have p0: "0 \<le> float64_div (of_nat k) (of_nat h * (1 / 4)) * 180" using d0 by simp
  have p1: "float64_div (of_nat k) (of_nat h * (1 / 4)) * 180 \<le> (1 - 1 / 2 ^ 31) * 180"
    using d1 by (simp only: mult_le_cancel_right_pos zero_less_numeral)
  have "ramp_value h k \<le> round_float64 ((1 - 1 / 2 ^ 31) * 180)"
    unfolding ramp_value_def float64_mul_def using p0 p1 by (rule round_float64_mono)
  then have "ramp_value h k \<le> (1 - 1 / 2 ^ 31) * 180" by (simp only: round_180_minus)
  moreover have "0 \<le> ramp_value h k"
    unfolding ramp_value_def float64_mul_def using p0 by (rule round_float64_nonneg)
  ultimately show ?thesis by simp
qed

lemma uint8_small: "0 \<le> x \<Longrightarrow> x < 256 \<Longrightarrow> uint8 x = nat \<lfloor>x\<rfloor>"
proof -
  assume a: "0 \<le> x" "x < 256"
  have "0 \<le> \<lfloor>x\<rfloor>" using a(1) by simp
  moreover have "\<lfloor>x\<rfloor> < 256" using a(2) by (simp add: floor_less_iff)
  ultimately show ?thesis by (simp add: uint8_def)
qed

lemma ramp_alpha_below:
  assumes "k < (h + 3) div 4" and "h < 2 ^ 31"
  shows "ramp_alpha h k < 180"
proof -
  have b: "0 \<le> ramp_value h k" "ramp_value h k \<le> (1 - 1 / 2 ^ 31) * 180"
    using ramp_value_bounds [OF assms] by simp_all
  then have lt: "ramp_value h k < 180" by simp
  then have "\<lfloor>ramp_value h k\<rfloor> < 180" by (simp add: floor_less_iff)
  then have "nat \<lfloor>ramp_value h k\<rfloor> < 180" by linarith
  moreover have "uint8 (ramp_value h k) = nat \<lfloor>ramp_value h k\<rfloor>"
    using b(1) lt by (simp add: uint8_small)
  ultimately show ?thesis by (simp only: ramp_alpha_value)
qed

lemma ramp_value_mono: "ramp_value h k \<le> ramp_value h (Suc k)"
proof -
  have "(of_nat k :: rat) / (of_nat h * (1 / 4)) \<le> of_nat (Suc k) / (of_nat h * (1 / 4))"
    by (simp add: divide_right_mono)
  moreover have "0 \<le> (of_nat k :: rat) / (of_nat h * (1 / 4))" by simp
  ultimately have d: "float64_div (of_nat k) (of_nat h * (1 / 4))
      \<le> float64_div (of_nat (Suc k)) (of_nat h * (1 / 4))"
    unfolding float64_div_def by (simp only: round_float64_mono)
  have "0 \<le> float64_div (of_nat k) (of_nat h * (1 / 4))"
    unfolding float64_div_def by (rule round_float64_nonneg) simp
  then have "0 \<le> float64_div (of_nat k) (of_nat h * (1 / 4)) * 180" by simp
  moreover have "float64_div (of_nat k) (of_nat h * (1 / 4)) * 180
      \<le> float64_div (of_nat (Suc k)) (of_nat h * (1 / 4)) * 180"
    using d by (simp only: mult_le_cancel_right_pos zero_less_numeral)
  ultimately show ?thesis unfolding ramp_value_def float64_mul_def by (rule round_float64_mono)
qed

lemma ramp_alpha_mono:
  assumes "Suc k < (h + 3) div 4" and "h < 2 ^ 31"
  shows "ramp_alpha h k \<le> ramp_alpha h (Suc k)"
proof -
  have k: "k < (h + 3) div 4" using assms(1) by simp
  have a: "0 \<le> ramp_value h k" "ramp_value h k < 256"
    using ramp_value_bounds [OF k assms(2)] by simp_all
  have b: "0 \<le> ramp_value h (Suc k)" "ramp_value h (Suc k) < 256"
    using ramp_value_bounds [OF assms] by simp_all
  have "\<lfloor>ramp_value h k\<rfloor> \<le> \<lfloor>ramp_value h (Suc k)\<rfloor>"
    using ramp_value_mono by (rule floor_mono)
  then show ?thesis
    unfolding ramp_alpha_value uint8_small [OF a] uint8_small [OF b] by simp
qed

lemma ramp_alpha_zero: "ramp_alpha h 0 = 0"
  by (simp add: ramp_alpha_def ramp_value_def float64_div_def float64_mul_def
      round_float64_zero uint8_def)

lemma gradient_loop_paints:
  "painted (gradient_loop (of_nat (Dy img) * (1 / 4)) (Dx img) (Dy img) 0 (NewContextForImage img))
     = gradient_rows (Dx img) (Dy img)"
proof -
  have p: "path (NewContextForImage img) = []" by (simp add: NewContextForImage_def)
  have "painted (gradient_loop (of_nat (Dy img) * (1 / 4)) (Dx img) (Dy img) (of_nat 0)
           (NewContextForImage img))
     = map (gradient_row (of_nat (Dy img) * (1 / 4)) (Dx img) (Dy img)) [0..<(Dy img + 3) div 4]"
    using gradient_loop_rows [OF p, of "of_nat (Dy img) * (1 / 4)" "Dx img" "Dy img" 0]
    by (simp only: row_count) (simp add: NewContextForImage_def)
  moreover have
    "map (gradient_row (of_nat (Dy img) * (1 / 4)) (Dx img) (Dy img)) [0..<(Dy img + 3) div 4]
     = gradient_rows (Dx img) (Dy img)"
    unfolding gradient_rows_def
    by (rule map_cong) (simp_all add: gradient_row_def ramp_alpha_def ramp_value_def)
  ultimately show ?thesis by simp
qed

lemma band_edges:
  assumes "0 < h"
  shows "(of_nat h :: rat) - of_nat h / 4 + of_nat ((h + 3) div 4 - 1) < of_nat h
       \<and> (of_nat h :: rat) \<le> of_nat h - of_nat h / 4 + of_nat ((h + 3) div 4 - 1) + 1"
proof -
  define n where "n = (h + 3) div 4"
  have n: "4 * (n - 1) < h" "h \<le> 4 * n" "0 < n" using assms unfolding n_def by presburger+
  have "(of_nat (4 * (n - 1)) :: rat) < of_nat h" using n(1) by (simp only: of_nat_less_iff)
  then have a: "(of_nat (n - 1) :: rat) < of_nat h / 4" by simp
  have "(of_nat h :: rat) \<le> of_nat (4 * n)" using n(2) by (simp only: of_nat_le_iff)
  then have b1: "(of_nat h :: rat) / 4 \<le> of_nat n" by simp
  have "n = Suc (n - 1)" using n(3) by simp
  then have "(of_nat n :: rat) = of_nat (Suc (n - 1))" by (rule arg_cong)
  then have b2: "(of_nat n :: rat) \<le> of_nat (n - 1) + 1"
    by (simp only: of_nat_Suc add.commute order_refl)
  have b: "(of_nat h :: rat) / 4 \<le> of_nat (n - 1) + 1" using b1 b2 by (rule order_trans)
  show ?thesis using a b unfolding n_def by linarith
qed

lemma draw_title_paints:
  "im (draw_title E cfg width height dc) = im dc \<and>
   (\<exists>ts. painted (draw_title E cfg width height dc) = painted dc @ ts)"
  by (simp add: draw_title_def Let_def DrawStringAnchored_def SetColor_def)

lemma draw_duration_paints:
  "im (draw_duration cfg width height dc) = im dc \<and>
   (\<exists>ts. painted (draw_duration cfg width height dc) = painted dc @ ts)"
  by (simp add: draw_duration_def Let_def DrawStringAnchored_def SetColor_def)

lemma addOverlay_composed:
  assumes "font_resolves E w (of_nat (Dx (resize_step E cfg img)) / 25)"
  shows "\<exists>ts. addOverlay E w img cfg
           = Inr (Canvas (resize_step E cfg img)
                   (gradient_rows (Dx (resize_step E cfg img)) (Dy (resize_step E cfg img)) @ ts))"
proof -
  let ?img = "resize_step E cfg img"
  let ?dc0 = "gradient_loop (of_nat (Dy ?img) * (1 / 4)) (Dx ?img) (Dy ?img) 0
                (NewContextForImage ?img)"
  have p0: "painted ?dc0 = gradient_rows (Dx ?img) (Dy ?img)" by (rule gradient_loop_paints)
  have i0: "im ?dc0 = ?img"
    using gradient_loop_rows [of "NewContextForImage ?img" "of_nat (Dy ?img) * (1 / 4)"
        "Dx ?img" "Dy ?img" 0]
    by (simp add: NewContextForImage_def)
  obtain p where l1: "loadFont E w ?dc0 (of_nat (Dx ?img) / 25)
      = (None, ?dc0\<lparr>fontFace := FontFace p (of_nat (Dx ?img) / 25)\<rparr>)"
    using loadFont_ok [OF assms] by blast
  define dc1 where "dc1 = ?dc0\<lparr>fontFace := FontFace p (of_nat (Dx ?img) / 25)\<rparr>"
  have s1: "im dc1 = ?img \<and> painted dc1 = gradient_rows (Dx ?img) (Dy ?img) @ []"
    using p0 i0 by (simp add: dc1_def)
  define dc2 where
    "dc2 = (if TitleText cfg \<noteq> [] then draw_title E cfg (Dx ?img) (Dy ?img) dc1 else dc1)"
  have s2: "im dc2 = ?img \<and> (\<exists>ts. painted dc2 = gradient_rows (Dx ?img) (Dy ?img) @ ts)"
    using s1 draw_title_paints [of E cfg "Dx ?img" "Dy ?img" dc1] unfolding dc2_def by auto
  define dc3 where "dc3 = (if DurationText cfg \<noteq> []
                        then (case loadFont E w dc2 (of_nat (Dx ?img) / 35) of
                                (Some err, dc) \<Rightarrow> dc
                              | (None, dc) \<Rightarrow> draw_duration cfg (Dx ?img) (Dy ?img) dc)
                        else dc2)"
  have s3: "im dc3 = ?img \<and> (\<exists>ts. painted dc3 = gradient_rows (Dx ?img) (Dy ?img) @ ts)"
  proof (cases "DurationText cfg \<noteq> []")
    case False
    then show ?thesis using s2 by (simp add: dc3_def)
  next
    case True
    obtain r dc' where l2: "loadFont E w dc2 (of_nat (Dx ?img) / 35) = (r, dc')"
      by (cases "loadFont E w dc2 (of_nat (Dx ?img) / 35)")
    then have k: "im dc' = im dc2 \<and> painted dc' = painted dc2" by (rule loadFont_keeps)
    show ?thesis
    proof (cases r)
      case None
      then show ?thesis
        using True l2 k s2 draw_duration_paints [of cfg "Dx ?img" "Dy ?img" dc']
        by (auto simp: dc3_def)
    next
      case (Some e)
      then show ?thesis using True l2 k s2 by (auto simp: dc3_def)
    qed
  qed
  have "addOverlay E w img cfg = Inr (Image dc3)"
    unfolding addOverlay_def Let_def l1 dc3_def dc2_def dc1_def by simp
  then show ?thesis using s3 by (auto simp: Image_def)
qed

lemma addOverlay_size:
  assumes "addOverlay E w img cfg = Inr r"
  shows "Dx r = Dx (resize_step E cfg img) \<and> Dy r = Dy (resize_step E cfg img)"
proof (cases "font_resolves E w (of_nat (Dx (resize_step E cfg img)) / 25)")
  case True
  then show ?thesis using addOverlay_composed [OF True] assms by auto
next
  case False
  then have "addOverlay E w img cfg = Inr (resize_step E cfg img)"
    by (simp add: addOverlay_def Let_def loadFont_fails)
  then show ?thesis using assms by simp
qed

text \<open>
  Claim C5.  With the default bounding box of 1280 by 720, a square bitmap of 3000 by
  3000 is composed into an image of exactly 1280 by 720, which is not its aspect ratio;
  a bitmap of 1400 by 700 also becomes 1280 by 720, so its height is scaled up.
\<close>

theorem addOverlay_resize_distorts:
  "(\<exists>r. addOverlay E w (Decoded 3000 3000 d) (DefaultThumbnailConfig E) = Inr r
        \<and> Dx r = 1280 \<and> Dy r = 720 \<and> 3000 * Dy r \<noteq> 3000 * Dx r)
   \<and> (\<exists>r. addOverlay E w (Decoded 1400 700 d) (DefaultThumbnailConfig E) = Inr r
        \<and> Dx r = 1280 \<and> Dy r = 720 \<and> 700 < Dy r)"
proof -
  have a: "resize_step E (DefaultThumbnailConfig E) (Decoded 3000 3000 d)
      = Scaled 1280 720 (Decoded 3000 3000 d)"
    by (simp add: resize_step_def resize_Resize_def DefaultThumbnailConfig_def)
  have b: "resize_step E (DefaultThumbnailConfig E) (Decoded 1400 700 d)
      = Scaled 1280 720 (Decoded 1400 700 d)"
    by (simp add: resize_step_def resize_Resize_def DefaultThumbnailConfig_def)
  obtain r1 where r1: "addOverlay E w (Decoded 3000 3000 d) (DefaultThumbnailConfig E) = Inr r1"
    using addOverlay_Inr by blast
  obtain r2 where r2: "addOverlay E w (Decoded 1400 700 d) (DefaultThumbnailConfig E) = Inr r2"
    using addOverlay_Inr by blast
  show ?thesis using addOverlay_size [OF r1] addOverlay_size [OF r2] r1 r2 a b by simp
qed

text \<open>
  Claim C6, as the code has it.  For an image of height \<open>h\<close> the gradient loop paints
  one black rectangle of height 1 and full width per row \<open>k = 0, 1, ...\<close> below three
  quarters of the height, as many as are needed to reach the bottom edge.  The alpha
  of row \<open>k\<close> is \<open>uint8((k / (h / 4)) * 180)\<close> as \<open>float64\<close> computes it, which can
  be one less than the exact quotient rounded down.  It is 0 in the top row and, for
  every height below \<open>2^31\<close>, it never decreases from a row to the next and stays
  below 180 in every row.  When the title font resolves, these rows are the first
  paints of the composed image; when it does not, the image is returned without them.
\<close>

theorem gradient_overlay_rows:
  "painted (gradient_loop (of_nat (Dy img) * (1 / 4)) (Dx img) (Dy img) 0 (NewContextForImage img))
     = gradient_rows (Dx img) (Dy img)
   \<and> length (gradient_rows (Dx img) (Dy img)) = (Dy img + 3) div 4
   \<and> (\<forall>k < (Dy img + 3) div 4.
         gradient_rows (Dx img) (Dy img) ! k
           = Filled [(0, of_nat (Dy img) - of_nat (Dy img) / 4 + of_nat k, of_nat (Dx img), 1)]
               (RGBA 0 0 0
                  (uint8 (float64_mul
                            (float64_div (of_nat k) (of_nat (Dy img) * (1 / 4))) 180))))
   \<and> uint8 (float64_mul (float64_div 0 (of_nat (Dy img) * (1 / 4))) 180) = 0
   \<and> (Dy img < 2 ^ 31 \<longrightarrow>
        (\<forall>k < (Dy img + 3) div 4.
           uint8 (float64_mul (float64_div (of_nat k) (of_nat (Dy img) * (1 / 4))) 180) < 180)
        \<and> (\<forall>k. Suc k < (Dy img + 3) div 4 \<longrightarrow>
             uint8 (float64_mul (float64_div (of_nat k) (of_nat (Dy img) * (1 / 4))) 180)
             \<le> uint8 (float64_mul
                         (float64_div (of_nat (Suc k)) (of_nat (Dy img) * (1 / 4))) 180)))
   \<and> (0 < Dy img \<longrightarrow>
        (of_nat (Dy img) :: rat) - of_nat (Dy img) / 4 + of_nat ((Dy img + 3) div 4 - 1)
          < of_nat (Dy img)
        \<and> (of_nat (Dy img) :: rat)
          \<le> of_nat (Dy img) - of_nat (Dy img) / 4 + of_nat ((Dy img + 3) div 4 - 1) + 1)
   \<and> (font_resolves E w (of_nat (Dx (resize_step E cfg img0)) / 25) \<longrightarrow>
        (\<exists>ts. addOverlay E w img0 cfg
           = Inr (Canvas (resize_step E cfg img0)
                   (gradient_rows (Dx (resize_step E cfg img0)) (Dy (resize_step E cfg img0))
                    @ ts))))"
proof -
  have a: "\<And>k. uint8 (float64_mul (float64_div (of_nat k) (of_nat (Dy img) * (1 / 4))) 180)
      = ramp_alpha (Dy img) k"
    by (simp only: ramp_alpha_def ramp_value_def)
  have rows: "\<And>k. k < (Dy img + 3) div 4 \<Longrightarrow>
         gradient_rows (Dx img) (Dy img) ! k
           = Filled [(0, of_nat (Dy img) - of_nat (Dy img) / 4 + of_nat k, of_nat (Dx img), 1)]
               (RGBA 0 0 0 (ramp_alpha (Dy img) k))"
    by (simp add: gradient_rows_def)
  have len: "length (gradient_rows (Dx img) (Dy img)) = (Dy img + 3) div 4"
    by (simp add: gradient_rows_def)
  have zero: "uint8 (float64_mul (float64_div 0 (of_nat (Dy img) * (1 / 4))) 180) = 0"
    using ramp_alpha_zero [of "Dy img"] by (simp add: ramp_alpha_def ramp_value_def)
  have below: "Dy img < 2 ^ 31 \<Longrightarrow> k < (Dy img + 3) div 4 \<Longrightarrow> ramp_alpha (Dy img) k < 180" for k
    by (rule ramp_alpha_below)
  have mono: "Dy img < 2 ^ 31 \<Longrightarrow> Suc k < (Dy img + 3) div 4
      \<Longrightarrow> ramp_alpha (Dy img) k \<le> ramp_alpha (Dy img) (Suc k)" for k
    by (rule ramp_alpha_mono)
  show ?thesis
    unfolding a
    using gradient_loop_paints [of img] rows len zero below mono
      band_edges [of "Dy img"] addOverlay_composed [of E w cfg img0]
    by blast
qed

theorem gradient_overlay_rows_witness:
  "length (painted (gradient_loop (of_nat 720 * (1 / 4)) 1280 720 0
             (NewContextForImage (Decoded 1280 720 ''JPEGDATA'')))) = 180
   \<and> painted (gradient_loop (of_nat 720 * (1 / 4)) 1280 720 0
        (NewContextForImage (Decoded 1280 720 ''JPEGDATA''))) ! 13
      = Filled [(0, 553, 1280, 1)] (RGBA 0 0 0 12)
   \<and> painted (gradient_loop (of_nat 720 * (1 / 4)) 1280 720 0
        (NewContextForImage (Decoded 1280 720 ''JPEGDATA''))) ! 90
      = Filled [(0, 630, 1280, 1)] (RGBA 0 0 0 90)
   \<and> uint8 (float64_mul (float64_div (of_nat 178) (of_nat 720 * (1 / 4))) 180)
      \<le> uint8 (float64_mul (float64_div (of_nat 179) (of_nat 720 * (1 / 4))) 180)
   \<and> uint8 (float64_mul (float64_div (of_nat 179) (of_nat 720 * (1 / 4))) 180) < 180"
proof -
  have k: "(13::nat) < (Dy (Decoded 1280 720 ''JPEGDATA'') + 3) div 4"
    "(90::nat) < (Dy (Decoded 1280 720 ''JPEGDATA'') + 3) div 4"
    "(179::nat) < (Dy (Decoded 1280 720 ''JPEGDATA'') + 3) div 4"
    "Suc 178 < (Dy (Decoded 1280 720 ''JPEGDATA'') + 3) div 4"
    by simp_all
  have h: "Dy (Decoded 1280 720 ''JPEGDATA'') < 2 ^ 31" by simp
  have a13: "uint8 (float64_mul (float64_div (of_nat 13) (of_nat 720 * (1 / 4))) 180) = 12"
    by code_simp
  have a90: "uint8 (float64_mul (float64_div (of_nat 90) (of_nat 720 * (1 / 4))) 180) = 90"
    by code_simp
  have s: "Suc 178 = 179" by simp
  have d: "Dy (Decoded 1280 720 ''JPEGDATA'') = 720" "Dx (Decoded 1280 720 ''JPEGDATA'') = 1280"
    by simp_all
  note t = gradient_overlay_rows [of "Decoded 1280 720 ''JPEGDATA''", unfolded d]
  have len: "length (painted (gradient_loop (of_nat 720 * (1 / 4)) 1280 720 0
             (NewContextForImage (Decoded 1280 720 ''JPEGDATA'')))) = 180"
    using t by simp
  have r13: "painted (gradient_loop (of_nat 720 * (1 / 4)) 1280 720 0
        (NewContextForImage (Decoded 1280 720 ''JPEGDATA''))) ! 13
      = Filled [(0, 553, 1280, 1)] (RGBA 0 0 0 12)"
    using t k(1) a13 unfolding d by simp
  have r90: "painted (gradient_loop (of_nat 720 * (1 / 4)) 1280 720 0
        (NewContextForImage (Decoded 1280 720 ''JPEGDATA''))) ! 90
      = Filled [(0, 630, 1280, 1)] (RGBA 0 0 0 90)"
    using t k(2) a90 unfolding d by simp
  have m: "uint8 (float64_mul (float64_div (of_nat 178) (of_nat 720 * (1 / 4))) 180)
      \<le> uint8 (float64_mul (float64_div (of_nat 179) (of_nat 720 * (1 / 4))) 180)"
    using t h k(4) unfolding d s [symmetric] by blast
  have b: "uint8 (float64_mul (float64_div (of_nat 179) (of_nat 720 * (1 / 4))) 180) < 180"
    using t h k(3) unfolding d by blast
  show ?thesis using len r13 r90 m b by blast
qed

theorem gradient_never_reaches_maximum:
  "last (painted (gradient_loop (of_nat 720 * (1 / 4)) 1280 720 0
           (NewContextForImage (Decoded 1280 720 ''JPEGDATA''))))
     = Filled [(0, 719, 1280, 1)] (RGBA 0 0 0 179)
   \<and> \<not> (\<exists>p \<in> set (painted (gradient_loop (of_nat 720 * (1 / 4)) 1280 720 0
                        (NewContextForImage (Decoded 1280 720 ''JPEGDATA'')))).
          \<exists>r. p = Filled r (RGBA 0 0 0 180))
   \<and> addOverlay sample_env sample_world (Decoded 1280 720 ''JPEGDATA'')
        ((DefaultThumbnailConfig sample_env)\<lparr>TitleText := ''Song'', DurationText := ''03:05''\<rparr>)
      = Inr (Decoded 1280 720 ''JPEGDATA'')"
proof -
  have e: "painted (gradient_loop (of_nat 720 * (1 / 4)) 1280 720 0
             (NewContextForImage (Decoded 1280 720 ''JPEGDATA'')))
           = gradient_rows 1280 720"
    using gradient_loop_paints [of "Decoded 1280 720 ''JPEGDATA''"] by simp
  have a179: "ramp_alpha 720 179 = 179" by code_simp
  have l: "last (gradient_rows 1280 720) = Filled [(0, 719, 1280, 1)] (RGBA 0 0 0 179)"
    by (simp add: gradient_rows_def last_map a179)
  have "(720::nat) < 2 ^ 31" by simp
  then have n: "\<And>k. k < (720 + 3) div 4 \<Longrightarrow> ramp_alpha 720 k \<noteq> 180"
    using ramp_alpha_below [of _ 720] by fastforce
  have m: "\<not> (\<exists>p \<in> set (gradient_rows 1280 720). \<exists>r. p = Filled r (RGBA 0 0 0 180))"
    using n by (auto simp: gradient_rows_def)
  let ?cfg = "(DefaultThumbnailConfig sample_env)\<lparr>TitleText := ''Song'', DurationText := ''03:05''\<rparr>"
  have rs: "resize_step sample_env ?cfg (Decoded 1280 720 ''JPEGDATA'') = Decoded 1280 720 ''JPEGDATA''"
    by (simp add: resize_step_def DefaultThumbnailConfig_def)
  have nf: "\<not> font_resolves sample_env sample_world (of_nat (Dx (Decoded 1280 720 ''JPEGDATA'')) / 25)"
    by (simp add: font_resolves_def usable_font_def fileExists_def sample_world_def
        sample_env_def defaultFontPaths_def)
  have a: "addOverlay sample_env sample_world (Decoded 1280 720 ''JPEGDATA'') ?cfg
      = Inr (Decoded 1280 720 ''JPEGDATA'')"
    unfolding addOverlay_def Let_def rs using loadFont_fails [OF nf] by simp
  show ?thesis using e l m a by simp
qed

section \<open>Properties of text wrapping\<close>

text \<open>
  A word is a non-empty string in which no white-space rune starts at any position.
\<close>

definition is_word :: "string \<Rightarrow> bool" where
  "is_word x = (x \<noteq> [] \<and> list_all (\<lambda>k. space_at (drop k x) = None) [0..<length x])"

lemma is_word_iff: "is_word x = (x \<noteq> [] \<and> (\<forall>k<length x. space_at (drop k x) = None))"
  by (auto simp: is_word_def list_all_iff)

lemma space_at_None_iff: "(space_at s = None) = (\<forall>p\<in>set space_encodings. \<not> prefix p s)"
  by (auto simp: space_at_def find_None_iff)

lemma space_at_None_appendD: "space_at (u @ v) = None \<Longrightarrow> space_at u = None"
  by (auto simp: space_at_None_iff)

lemma fields_scan_words:
  assumes "\<forall>k<length w. space_at (drop k w @ s) = None"
  shows "\<forall>x\<in>set (fields_scan w s). is_word x"
  using assms
proof (induction w s rule: fields_scan.induct)
  case (1 w)
  then show ?case by (auto simp: is_word_iff)
next
  case (2 w c cs)
  have wd: "w \<noteq> [] \<Longrightarrow> is_word w"
    using 2(3) space_at_None_appendD by (auto simp: is_word_iff)
  show ?case
  proof (cases "space_at (c # cs)")
    case None
    have "\<forall>k<length (w @ [c]). space_at (drop k (w @ [c]) @ cs) = None"
    proof (intro allI impI)
      fix k assume "k < length (w @ [c])"
      then consider "k < length w" | "k = length w" by fastforce
      then show "space_at (drop k (w @ [c]) @ cs) = None"
      proof cases
        case 1
        then show ?thesis using 2(3) by simp
      next
        case 2
        then show ?thesis using None by simp
      qed
    qed
    then show ?thesis using 2(1) [OF None] None by simp
  next
    case (Some p)
    have "\<forall>x\<in>set (fields_scan [] (drop (length p) (c # cs))). is_word x"
      using 2(2) [OF Some] by simp
    then show ?thesis using Some wd by auto
  qed
qed

lemma Fields_words: "list_all is_word (Fields s)"
  using fields_scan_words [of "[]" s] by (simp add: Fields_def list_all_iff)

lemma space_in_tail: "\<forall>p\<in>set space_encodings. CHR '' '' \<notin> set (tl p)"
  by (simp add: space_encodings_def)

lemma space_at_space: "space_at (CHR '' '' # r) = Some '' ''"
  by (simp add: space_at_def space_encodings_def)

lemma word_before_space:
  assumes "is_word x" and "k < length x" and "r = [] \<or> hd r = CHR '' ''"
  shows "space_at (drop k x @ r) = None"
proof (rule ccontr)
  assume "space_at (drop k x @ r) \<noteq> None"
  then obtain p where p: "p \<in> set space_encodings" "prefix p (drop k x @ r)"
    by (auto simp: space_at_None_iff)
  have nx: "\<not> prefix p (drop k x)"
    using assms(1,2) p(1) by (auto simp: is_word_iff space_at_None_iff)
  then obtain us where us: "p = drop k x @ us" "prefix us r"
    using p(2) by (auto simp: prefix_append)
  have "us \<noteq> []" using nx us(1) by auto
  then have "r \<noteq> []" "hd us = hd r" using us(2) by (auto simp: prefix_def)
  then have "hd us = CHR '' ''" using assms(3) by simp
  then have "CHR '' '' \<in> set us" using \<open>us \<noteq> []\<close> hd_in_set by metis
  moreover have "drop k x \<noteq> []" using assms(2) by simp
  then have "tl p = tl (drop k x) @ us" using us(1) by simp
  ultimately have "CHR '' '' \<in> set (tl p)" by simp
  then show False using space_in_tail p(1) by blast
qed

lemma fields_scan_append:
  "\<forall>k<length u. space_at (drop k u @ r) = None \<Longrightarrow> fields_scan acc (u @ r) = fields_scan (acc @ u) r"
proof (induction u arbitrary: acc)
  case Nil
  then show ?case by simp
next
  case (Cons c u)
  have "space_at (c # u @ r) = None" using Cons(2) by fastforce
  moreover have "\<forall>k<length u. space_at (drop k u @ r) = None"
    using Cons(2) by fastforce
  ultimately show ?case using Cons(1) [of "acc @ [c]"] by simp
qed

lemma Fields_Join:
  "list_all is_word ws \<Longrightarrow> Fields (Join ws '' '') = ws"
proof (induction ws)
  case Nil
  then show ?case by (simp add: Fields_def)
next
  case (Cons x ws)
  then have x: "is_word x" and ws: "list_all is_word ws" by simp_all
  have ne: "x \<noteq> []" using x by (simp add: is_word_iff)
  show ?case
  proof (cases "ws = []")
    case True
    have "fields_scan [] (x @ []) = fields_scan ([] @ x) []"
      by (rule fields_scan_append) (use x in \<open>simp add: is_word_iff\<close>)
    then show ?thesis using True ne by (simp add: Fields_def)
  next
    case False
    let ?r = "'' '' @ Join ws '' ''"
    have "fields_scan [] (x @ ?r) = fields_scan ([] @ x) ?r"
      by (rule fields_scan_append) (simp add: word_before_space [OF x])
    also have "\<dots> = x # fields_scan [] (Join ws '' '')"
      using ne by (simp add: space_at_space)
    finally show ?thesis using False Cons(1) [OF ws] by (simp add: Fields_def Join_Cons)
  qed
qed

text \<open>
  The greedy grouping of a list of words into lines, on the level of words: a word
  joins the group in progress unless the group is non-empty and, joined with single
  spaces, would measure more than the budget with the word added; then the word
  starts the next group.
\<close>

primrec group_words ::
  "string list \<Rightarrow> (string \<Rightarrow> 'w::linorder) \<Rightarrow> 'w \<Rightarrow> string list list \<Rightarrow> string list
     \<Rightarrow> string list list \<times> string list"
where
  "group_words [] m maxWidth gs g = (gs, g)"
| "group_words (x # rest) m maxWidth gs g =
     (if maxWidth < m (Join (g @ [x]) '' '') \<and> g \<noteq> []
      then group_words rest m maxWidth (gs @ [g]) [x]
      else group_words rest m maxWidth gs (g @ [x]))"

definition greedy_groups :: "(string \<Rightarrow> 'w::linorder) \<Rightarrow> 'w \<Rightarrow> string list \<Rightarrow> string list list" where
  "greedy_groups m maxWidth ws =
     (case group_words ws m maxWidth [] [] of (gs, g) \<Rightarrow> if g = [] then gs else gs @ [g])"

text \<open>
  A group fits when every prefix of it of two or more words measures within the
  budget.  A list of groups has greedy breaks when no group could have taken the first
  word of the group after it.
\<close>

definition fits :: "(string \<Rightarrow> 'w::linorder) \<Rightarrow> 'w \<Rightarrow> string list \<Rightarrow> bool" where
  "fits m maxWidth g = list_all (\<lambda>k. m (Join (take k g) '' '') \<le> maxWidth) [2..<length g + 1]"

fun breaks :: "(string \<Rightarrow> 'w::linorder) \<Rightarrow> 'w \<Rightarrow> string list list \<Rightarrow> bool" where
  "breaks m maxWidth (g # h # rest) =
     (maxWidth < m (Join (g @ [hd h]) '' '') \<and> breaks m maxWidth (h # rest))"
| "breaks m maxWidth gs = True"

lemma Join_empty_iff: "[] \<notin> set g \<Longrightarrow> (Join g sep = []) = (g = [])"
  by (induction g sep rule: Join.induct) auto

lemma wrap_words_groups:
  assumes "[] \<notin> set g" and "[] \<notin> set ws"
  shows "wrap_words ws m W (map (\<lambda>g. Join g '' '') gs) (Join g '' '')
         = (case group_words ws m W gs g of
              (gs', g') \<Rightarrow> (map (\<lambda>g. Join g '' '') gs', Join g' '' ''))"
  using assms
proof (induction ws arbitrary: gs g)
  case Nil
  then show ?case by simp
next
  case (Cons x ws)
  have e: "(Join g '' '' = []) = (g = [])" using Cons(2) by (rule Join_empty_iff)
  have t: "(if Join g '' '' \<noteq> [] then Join g '' '' @ '' '' else Join g '' '') @ x = Join (g @ [x]) '' ''"
    by (simp add: Join_snoc e)
  have x: "[] \<notin> set [x]" "[] \<notin> set (g @ [x])" "[] \<notin> set ws" using Cons(2,3) by auto
  have j: "Join [x] '' '' = x" by simp
  show ?case
  proof (cases "W < m (Join (g @ [x]) '' '') \<and> g \<noteq> []")
    case True
    then show ?thesis
      using Cons(1) [OF x(1) x(3), of "gs @ [g]"] t e by (simp add: Let_def)
  next
    case False
    then show ?thesis
      using Cons(1) [OF x(2) x(3), of gs] t e by (auto simp: Let_def)
  qed
qed

lemma group_words_concat:
  "group_words ws m W gs g = (gs', g') \<Longrightarrow> concat gs' @ g' = concat gs @ g @ ws"
  by (induction ws arbitrary: gs g) (auto split: if_splits)

lemma group_words_nonempty:
  "group_words ws m W gs g = (gs', g') \<Longrightarrow> [] \<notin> set gs \<Longrightarrow> [] \<notin> set gs' \<and> (g \<noteq> [] \<or> ws \<noteq> [] \<longrightarrow> g' \<noteq> [])"
  by (induction ws arbitrary: gs g) (auto split: if_splits)

lemma fits_iff:
  "fits m W g = (\<forall>k. 2 \<le> k \<and> k \<le> length g \<longrightarrow> m (Join (take k g) '' '') \<le> W)"
  by (auto simp: fits_def list_all_iff)

lemma fits_snoc:
  assumes "fits m W g" and "g = [] \<or> m (Join (g @ [x]) '' '') \<le> W"
  shows "fits m W (g @ [x])"
  unfolding fits_iff
proof (intro allI impI)
  fix k assume k: "2 \<le> k \<and> k \<le> length (g @ [x])"
  show "m (Join (take k (g @ [x])) '' '') \<le> W"
  proof (cases "k \<le> length g")
    case True
    then have "take k (g @ [x]) = take k g" by simp
    then show ?thesis using assms(1) k True by (simp add: fits_iff)
  next
    case False
    then have "take k (g @ [x]) = g @ [x]" "g \<noteq> []" using k by auto
    then show ?thesis using assms(2) by simp
  qed
qed

lemma fits_single: "fits m W [x]"
  by (simp add: fits_def)

lemma group_words_fits:
  "group_words ws m W gs g = (gs', g') \<Longrightarrow> list_all (fits m W) gs \<Longrightarrow> fits m W g
   \<Longrightarrow> list_all (fits m W) gs' \<and> fits m W g'"
proof (induction ws arbitrary: gs g)
  case Nil
  then show ?case by simp
next
  case (Cons x ws)
  show ?case
  proof (cases "W < m (Join (g @ [x]) '' '') \<and> g \<noteq> []")
    case True
    then have "group_words ws m W (gs @ [g]) [x] = (gs', g')" using Cons(2) by simp
    then show ?thesis using Cons(1) [of "gs @ [g]" "[x]"] Cons(3,4) fits_single [of m W x] by simp
  next
    case False
    then have r: "group_words ws m W gs (g @ [x]) = (gs', g')" using Cons(2) by auto
    have "g = [] \<or> m (Join (g @ [x]) '' '') \<le> W" using False by (auto simp: not_less)
    then have "fits m W (g @ [x])" by (rule fits_snoc [OF Cons(4)])
    then show ?thesis using Cons(1) [OF r Cons(3)] by simp
  qed
qed

lemma breaks_snoc:
  "breaks m W (gs @ [g]) \<Longrightarrow> W < m (Join (g @ [hd h]) '' '') \<Longrightarrow> breaks m W (gs @ [g, h])"
  by (induction m W gs rule: breaks.induct) auto

lemma breaks_last_grow:
  "breaks m W (gs @ [g]) \<Longrightarrow> g \<noteq> [] \<Longrightarrow> breaks m W (gs @ [g @ [x]])"
  by (induction m W gs rule: breaks.induct) simp_all

lemma group_words_breaks:
  "group_words ws m W gs g = (gs', g') \<Longrightarrow> breaks m W (if g = [] then gs else gs @ [g])
   \<Longrightarrow> (g = [] \<longrightarrow> gs = [])
   \<Longrightarrow> breaks m W (if g' = [] then gs' else gs' @ [g'])"
proof (induction ws arbitrary: gs g)
  case Nil
  then show ?case by (auto split: if_splits)
next
  case (Cons x ws)
  show ?case
  proof (cases "W < m (Join (g @ [x]) '' '') \<and> g \<noteq> []")
    case True
    then have r: "group_words ws m W (gs @ [g]) [x] = (gs', g')" using Cons(2) by simp
    have "breaks m W (gs @ [g, [x]])" using breaks_snoc [of m W gs g "[x]"] Cons(3) True by simp
    then show ?thesis using Cons(1) [OF r] by simp
  next
    case False
    then have r: "group_words ws m W gs (g @ [x]) = (gs', g')" using Cons(2) by auto
    have "breaks m W (gs @ [g @ [x]])"
    proof (cases "g = []")
      case True
      then show ?thesis using Cons(4) by simp
    next
      case False
      then show ?thesis using breaks_last_grow [of m W gs g x] Cons(3) by simp
    qed
    then show ?thesis using Cons(1) [OF r] by simp
  qed
qed

text \<open>
  Dropping last words until the line fits with the ellipsis: of the prefixes of a
  line's words with \<open>k\<close> words or fewer, but at least one, the longest that measures
  within the budget when joined and followed by \<open>...\<close>, with the ellipsis attached.
\<close>

fun longest_fit :: "(string \<Rightarrow> 'w::linorder) \<Rightarrow> 'w \<Rightarrow> string list \<Rightarrow> nat \<Rightarrow> string option" where
  "longest_fit m maxWidth ws 0 = None"
| "longest_fit m maxWidth ws (Suc k) =
     (if m (Join (take (Suc k) ws) '' '' @ ''...'') \<le> maxWidth
      then Some (Join (take (Suc k) ws) '' '' @ ''...'')
      else longest_fit m maxWidth ws k)"

lemma ellipsis_loop_longest_fit:
  assumes "list_all is_word ws"
  shows "1 \<le> k \<Longrightarrow> k \<le> length ws \<Longrightarrow>
         ellipsis_loop m W (Join (take k ws) '' '') = longest_fit m W ws k"
proof (induction k)
  case 0
  then show ?case by simp
next
  case (Suc k)
  have w: "list_all is_word (take (Suc k) ws)"
    using assms by (auto simp: list_all_iff dest: in_set_takeD)
  have f: "Fields (Join (take (Suc k) ws) '' '') = take (Suc k) ws"
    by (rule Fields_Join [OF w])
  have len: "length (take (Suc k) ws) = Suc k" using Suc(3) by simp
  show ?case
  proof (cases "m (Join (take (Suc k) ws) '' '' @ ''...'') \<le> W")
    case True
    then show ?thesis by (subst ellipsis_loop.simps) simp
  next
    case False
    show ?thesis
    proof (cases "k = 0")
      case True
      then show ?thesis using False f len by (subst ellipsis_loop.simps) (simp add: Let_def)
    next
      case nz: False
      then have ih: "ellipsis_loop m W (Join (take k ws) '' '') = longest_fit m W ws k"
        using Suc by simp
      have t: "take (length (take (Suc k) ws) - 1) (take (Suc k) ws) = take k ws"
        using len by (simp add: min_def)
      have "ellipsis_loop m W (Join (take (Suc k) ws) '' '')
            = ellipsis_loop m W (Join (take k ws) '' '')"
        using False nz len
        by (subst ellipsis_loop.simps) (simp only: f Let_def t, simp)
      then show ?thesis using ih False by simp
    qed
  qed
qed

lemma longest_fit_Some:
  "longest_fit m W ws k = Some l \<Longrightarrow>
   m l \<le> W \<and>
   (\<exists>j. 1 \<le> j \<and> j \<le> k \<and> l = Join (take j ws) '' '' @ ''...'' \<and>
        (\<forall>i. j < i \<and> i \<le> k \<longrightarrow> W < m (Join (take i ws) '' '' @ ''...'')))"
proof (induction k)
  case 0
  then show ?case by simp
next
  case (Suc k)
  show ?case
  proof (cases "m (Join (take (Suc k) ws) '' '' @ ''...'') \<le> W")
    case True
    then have "l = Join (take (Suc k) ws) '' '' @ ''...''" using Suc(2) by simp
    then show ?thesis using True by (intro conjI exI [of _ "Suc k"]) auto
  next
    case False
    then have "longest_fit m W ws k = Some l" using Suc(2) by simp
    then obtain j where j: "m l \<le> W" "1 \<le> j" "j \<le> k" "l = Join (take j ws) '' '' @ ''...''"
      "\<forall>i. j < i \<and> i \<le> k \<longrightarrow> W < m (Join (take i ws) '' '' @ ''...'')"
      using Suc(1) by blast
    have "\<forall>i. j < i \<and> i \<le> Suc k \<longrightarrow> W < m (Join (take i ws) '' '' @ ''...'')"
      using j(5) False by (auto simp: le_Suc_eq not_le)
    then show ?thesis using j by (intro conjI exI [of _ j]) auto
  qed
qed

lemma longest_fit_None:
  "longest_fit m W ws k = None \<Longrightarrow>
   (\<forall>i. 1 \<le> i \<and> i \<le> k \<longrightarrow> W < m (Join (take i ws) '' '' @ ''...''))"
  by (induction k) (auto simp: le_Suc_eq not_le split: if_splits)

lemma wrap_words_greedy:
  assumes "list_all is_word ws"
  shows "(case wrap_words ws m W [] [] of
            (lines, currentLine) \<Rightarrow> if currentLine \<noteq> [] then lines @ [currentLine] else lines)
         = map (\<lambda>g. Join g '' '') (greedy_groups m W ws)"
proof -
  have ne: "[] \<notin> set ws" using assms by (auto simp: list_all_iff is_word_iff)
  obtain gs g where gw: "group_words ws m W [] [] = (gs, g)"
    by (cases "group_words ws m W [] []")
  have "concat gs @ g = ws" using group_words_concat [OF gw] by simp
  then have "set g \<subseteq> set ws" by (metis Un_upper2 set_append)
  then have g: "[] \<notin> set g" using ne by auto
  have "wrap_words ws m W (map (\<lambda>g. Join g '' '') []) (Join [] '' '')
        = (map (\<lambda>g. Join g '' '') gs, Join g '' '')"
    using wrap_words_groups [of "[]" ws m W "[]"] ne gw by simp
  then show ?thesis using gw Join_empty_iff [OF g, of "'' ''"]
    by (simp add: greedy_groups_def)
qed

lemma greedy_groups_props:
  assumes "list_all is_word ws"
  shows "concat (greedy_groups m W ws) = ws"
    and "[] \<notin> set (greedy_groups m W ws)"
    and "list_all (fits m W) (greedy_groups m W ws)"
    and "breaks m W (greedy_groups m W ws)"
    and "\<forall>g\<in>set (greedy_groups m W ws). list_all is_word g"
proof -
  obtain gs g where gw: "group_words ws m W [] [] = (gs, g)"
    by (cases "group_words ws m W [] []")
  have gg: "greedy_groups m W ws = (if g = [] then gs else gs @ [g])"
    using gw by (simp add: greedy_groups_def)
  show c: "concat (greedy_groups m W ws) = ws"
    using group_words_concat [OF gw] gg by auto
  show "[] \<notin> set (greedy_groups m W ws)"
    using group_words_nonempty [OF gw] gg by auto
  show "list_all (fits m W) (greedy_groups m W ws)"
    using group_words_fits [OF gw] gg by (auto simp: fits_def)
  show "breaks m W (greedy_groups m W ws)"
    using group_words_breaks [OF gw] gg by simp
  show "\<forall>g\<in>set (greedy_groups m W ws). list_all is_word g"
  proof
    fix h assume "h \<in> set (greedy_groups m W ws)"
    then have "set h \<subseteq> set (concat (greedy_groups m W ws))" by auto
    then show "list_all is_word h" using assms c by (auto simp: list_all_iff)
  qed
qed

lemma wrapped_lines_groups:
  assumes "list_all is_word ws"
  shows "wrapped_lines m W ws =
     (if 2 < length (greedy_groups m W ws)
      then [Join (greedy_groups m W ws ! 0) '' '',
            case longest_fit m W (greedy_groups m W ws ! 1) (length (greedy_groups m W ws ! 1)) of
              Some l \<Rightarrow> l
            | None \<Rightarrow> Join (greedy_groups m W ws ! 1) '' '']
      else map (\<lambda>g. Join g '' '') (greedy_groups m W ws))"
proof -
  let ?G = "greedy_groups m W ws"
  let ?L = "map (\<lambda>g. Join g '' '') ?G"
  have L: "(case wrap_words ws m W [] [] of
            (lines, currentLine) \<Rightarrow> if currentLine \<noteq> [] then lines @ [currentLine] else lines) = ?L"
    by (rule wrap_words_greedy [OF assms])
  have unfold: "wrapped_lines m W ws =
     (if length ?L > 2
      then (case ellipsis_loop m W (take 2 ?L ! 1) of
              Some l \<Rightarrow> (take 2 ?L)[1 := l]
            | None \<Rightarrow> take 2 ?L)
      else ?L)"
    unfolding wrapped_lines_def L [symmetric]
    by (simp add: Let_def split: prod.splits)
  show ?thesis
  proof (cases "2 < length ?G")
    case False
    then show ?thesis using unfold by simp
  next
    case True
    then obtain g0 g1 rest where G: "?G = g0 # g1 # rest"
      by (cases ?G; cases "tl ?G") auto
    have g1: "g1 \<noteq> []" "list_all is_word g1"
      using greedy_groups_props(2,5) [OF assms, of m W] G by auto
    have "ellipsis_loop m W (Join (take (length g1) g1) '' '') = longest_fit m W g1 (length g1)"
      using ellipsis_loop_longest_fit [OF g1(2), of "length g1" m W] g1(1)
      by (simp add: Suc_le_eq)
    then have e: "ellipsis_loop m W (Join g1 '' '') = longest_fit m W g1 (length g1)" by simp
    show ?thesis using True unfold e G by (simp split: option.splits)
  qed
qed

lemma longest_fit_eq:
  "1 \<le> j \<Longrightarrow> j \<le> k \<Longrightarrow> m (Join (take j ws) '' '' @ ''...'') \<le> W \<Longrightarrow>
   (\<forall>i. j < i \<and> i \<le> k \<longrightarrow> W < m (Join (take i ws) '' '' @ ''...'')) \<Longrightarrow>
   longest_fit m W ws k = Some (Join (take j ws) '' '' @ ''...'')"
proof (induction k)
  case 0
  then show ?case by simp
next
  case (Suc k)
  show ?case
  proof (cases "j = Suc k")
    case True
    then show ?thesis using Suc(4) by simp
  next
    case False
    then have jk: "j \<le> k" using Suc(3) by simp
    have "W < m (Join (take (Suc k) ws) '' '' @ ''...'')" using Suc(5) jk by simp
    then have nf: "\<not> m (Join (take (Suc k) ws) '' '' @ ''...'') \<le> W" by (simp add: not_le)
    have "longest_fit m W ws (Suc k) = longest_fit m W ws k"
      by (simp only: longest_fit.simps nf if_False)
    moreover have "longest_fit m W ws k = Some (Join (take j ws) '' '' @ ''...'')"
      using Suc(1) [OF Suc(2) jk Suc(4)] Suc(5) by simp
    ultimately show ?thesis by simp
  qed
qed

lemma longest_fit_ellipsis:
  assumes "1 \<le> i" "i \<le> k" "m (Join (take i ws) '' '' @ ''...'') \<le> W"
  shows "\<exists>l. longest_fit m W ws k = Some l \<and> suffix ''...'' l \<and> m l \<le> W"
proof (cases "longest_fit m W ws k")
  case None
  then show ?thesis using longest_fit_None [OF None] assms by (auto simp: not_less [symmetric])
next
  case (Some l)
  then show ?thesis using longest_fit_Some [OF Some] by (auto simp: suffix_def)
qed

lemma two_lines: "length xs = 2 \<Longrightarrow> xs ! 0 = a \<Longrightarrow> xs ! 1 = b \<Longrightarrow> xs = [a, b]"
  by (cases xs; cases "tl xs") auto

text \<open>
  Claim C3, as the code has it.  A text without words is returned as it is.
  Otherwise the words are grouped greedily: the groups are consecutive, non-empty and
  make up the words in order; every group of two or more words measures within the
  budget, and so does each of its prefixes of two or more words; each group but the
  last would exceed the budget with the first word of the next.  The output is the
  lines joined with a newline, and there are at most two of them.  With one or two
  groups the lines are the groups, each joined with single spaces.  With more there
  are exactly two lines, the first line is the first group, and whenever some prefix
  of the second group, of at least one word, measures within the budget when followed
  by \<open>...\<close>, the second line is the longest such prefix with the ellipsis attached: it
  ends with \<open>...\<close> and measures within the budget.
\<close>

theorem wrapText_greedy_two_lines:
  fixes m :: "string \<Rightarrow> 'w::linorder"
  shows
  "(Fields text = [] \<longrightarrow> wrapText m W text = text)
   \<and> (Fields text \<noteq> [] \<longrightarrow>
        wrapText m W text = Join (wrapped_lines m W (Fields text)) [CHR 0x0A])
   \<and> concat (greedy_groups m W (Fields text)) = Fields text
   \<and> [] \<notin> set (greedy_groups m W (Fields text))
   \<and> list_all (fits m W) (greedy_groups m W (Fields text))
   \<and> breaks m W (greedy_groups m W (Fields text))
   \<and> length (wrapped_lines m W (Fields text)) \<le> 2
   \<and> (length (greedy_groups m W (Fields text)) \<le> 2 \<longrightarrow>
        wrapped_lines m W (Fields text)
          = map (\<lambda>g. Join g '' '') (greedy_groups m W (Fields text)))
   \<and> (2 < length (greedy_groups m W (Fields text)) \<longrightarrow>
        length (wrapped_lines m W (Fields text)) = 2
        \<and> wrapped_lines m W (Fields text) ! 0 = Join (greedy_groups m W (Fields text) ! 0) '' ''
        \<and> (\<forall>j. 1 \<le> j \<and> j \<le> length (greedy_groups m W (Fields text) ! 1)
              \<and> m (Join (take j (greedy_groups m W (Fields text) ! 1)) '' '' @ ''...'') \<le> W
              \<and> (\<forall>i. j < i \<and> i \<le> length (greedy_groups m W (Fields text) ! 1)
                    \<longrightarrow> W < m (Join (take i (greedy_groups m W (Fields text) ! 1)) '' '' @ ''...''))
              \<longrightarrow> wrapped_lines m W (Fields text) ! 1
                    = Join (take j (greedy_groups m W (Fields text) ! 1)) '' '' @ ''...'')
        \<and> ((\<exists>i. 1 \<le> i \<and> i \<le> length (greedy_groups m W (Fields text) ! 1)
              \<and> m (Join (take i (greedy_groups m W (Fields text) ! 1)) '' '' @ ''...'') \<le> W)
            \<longrightarrow> suffix ''...'' (wrapped_lines m W (Fields text) ! 1)
                \<and> m (wrapped_lines m W (Fields text) ! 1) \<le> W))"
proof -
  let ?G = "greedy_groups m W (Fields text)"
  let ?L = "wrapped_lines m W (Fields text)"
  have w: "list_all is_word (Fields text)" by (rule Fields_words)
  have a: "Fields text = [] \<longrightarrow> wrapText m W text = text"
    by (simp add: wrapText_def)
  have b: "Fields text \<noteq> [] \<longrightarrow> wrapText m W text = Join ?L [CHR 0x0A]"
    by (simp add: wrapText_def Let_def)
  have len: "length ?L \<le> 2"
    by (simp add: wrapped_lines_groups [OF w])
  have le2: "length ?G \<le> 2 \<longrightarrow> ?L = map (\<lambda>g. Join g '' '') ?G"
    by (simp add: wrapped_lines_groups [OF w])
  have gt2: "length ?L = 2
        \<and> ?L ! 0 = Join (?G ! 0) '' ''
        \<and> (\<forall>j. 1 \<le> j \<and> j \<le> length (?G ! 1)
              \<and> m (Join (take j (?G ! 1)) '' '' @ ''...'') \<le> W
              \<and> (\<forall>i. j < i \<and> i \<le> length (?G ! 1)
                    \<longrightarrow> W < m (Join (take i (?G ! 1)) '' '' @ ''...''))
              \<longrightarrow> ?L ! 1 = Join (take j (?G ! 1)) '' '' @ ''...'')
        \<and> ((\<exists>i. 1 \<le> i \<and> i \<le> length (?G ! 1)
              \<and> m (Join (take i (?G ! 1)) '' '' @ ''...'') \<le> W)
            \<longrightarrow> suffix ''...'' (?L ! 1) \<and> m (?L ! 1) \<le> W)"
    if g: "2 < length ?G"
  proof -
    have L: "?L = [Join (?G ! 0) '' '',
                   case longest_fit m W (?G ! 1) (length (?G ! 1)) of
                     Some l \<Rightarrow> l | None \<Rightarrow> Join (?G ! 1) '' '']"
      using g by (simp add: wrapped_lines_groups [OF w])
    have l2: "length ?L = 2" by (subst L) simp
    have l0: "?L ! 0 = Join (?G ! 0) '' ''" by (subst L) simp
    have l1: "?L ! 1 = (case longest_fit m W (?G ! 1) (length (?G ! 1)) of
                     Some l \<Rightarrow> l | None \<Rightarrow> Join (?G ! 1) '' '')" by (subst L) simp
    have c: "?L ! 1 = Join (take j (?G ! 1)) '' '' @ ''...''"
      if "1 \<le> j" "j \<le> length (?G ! 1)" "m (Join (take j (?G ! 1)) '' '' @ ''...'') \<le> W"
        "\<forall>i. j < i \<and> i \<le> length (?G ! 1) \<longrightarrow> W < m (Join (take i (?G ! 1)) '' '' @ ''...'')"
      for j
      using longest_fit_eq [OF that] by (simp only: l1 option.case)
    have d: "suffix ''...'' (?L ! 1) \<and> m (?L ! 1) \<le> W"
      if h: "1 \<le> i" "i \<le> length (?G ! 1)" "m (Join (take i (?G ! 1)) '' '' @ ''...'') \<le> W"
      for i
    proof -
      obtain l where "longest_fit m W (?G ! 1) (length (?G ! 1)) = Some l"
        "suffix ''...'' l" "m l \<le> W"
        using longest_fit_ellipsis [of i "length (?G ! 1)" m "?G ! 1" W] h by blast
      then show ?thesis by (simp only: l1 option.case)
    qed
    show ?thesis using l2 l0 c d by blast
  qed
  show ?thesis
    using a b len le2 gt2 greedy_groups_props(1-4) [OF w, of m W]
    by blast
qed

theorem wrapText_greedy_two_lines_witness:
  "wrapped_lines length (9::nat) (Fields ''aaaa bbbb cccc dd eeeeeee'') = [''aaaa bbbb'', ''cccc...'']
   \<and> wrapText length (9::nat) ''aaaa bbbb cccc dd eeeeeee'' = ''aaaa bbbb'' @ [CHR 0x0A] @ ''cccc...''
   \<and> suffix ''...'' (wrapped_lines length (9::nat) (Fields ''aaaa bbbb cccc dd eeeeeee'') ! 1)
   \<and> length (wrapped_lines length (9::nat) (Fields ''aaaa bbbb cccc dd eeeeeee'') ! 1) \<le> 9"
proof -
  let ?L = "wrapped_lines length (9::nat) [''aaaa'', ''bbbb'', ''cccc'', ''dd'', ''eeeeeee'']"
  have f: "Fields ''aaaa bbbb cccc dd eeeeeee'' = [''aaaa'', ''bbbb'', ''cccc'', ''dd'', ''eeeeeee'']"
    by (simp add: Fields_def space_at_def space_encodings_def)
  have g: "greedy_groups length (9::nat) [''aaaa'', ''bbbb'', ''cccc'', ''dd'', ''eeeeeee'']
      = [[''aaaa'', ''bbbb''], [''cccc'', ''dd''], [''eeeeeee'']]"
    by (simp add: greedy_groups_def)
  have j: "(1::nat) \<le> 1 \<and> (1::nat) \<le> length [''cccc'', ''dd'']
      \<and> length (Join (take 1 [''cccc'', ''dd'']) '' '' @ ''...'') \<le> (9::nat)
      \<and> (\<forall>i. 1 < i \<and> i \<le> length [''cccc'', ''dd'']
            \<longrightarrow> (9::nat) < length (Join (take i [''cccc'', ''dd'']) '' '' @ ''...''))"
  proof (intro conjI allI impI)
    fix i :: nat assume "1 < i \<and> i \<le> length [''cccc'', ''dd'']"
    then have "i = 2" by simp
    then show "(9::nat) < length (Join (take i [''cccc'', ''dd'']) '' '' @ ''...'')" by simp
  qed simp_all
  have e: "\<exists>i. 1 \<le> i \<and> i \<le> length [''cccc'', ''dd'']
      \<and> length (Join (take i [''cccc'', ''dd'']) '' '' @ ''...'') \<le> (9::nat)"
    using j by blast
  have n: "[[''aaaa'', ''bbbb''], [''cccc'', ''dd''], [''eeeeeee'']] ! 0 = [''aaaa'', ''bbbb'']"
    "[[''aaaa'', ''bbbb''], [''cccc'', ''dd''], [''eeeeeee'']] ! 1 = [''cccc'', ''dd'']"
    by simp_all
  have gl: "2 < length [[''aaaa'', ''bbbb''], [''cccc'', ''dd''], [''eeeeeee'']]"
    and ne: "[''aaaa'', ''bbbb'', ''cccc'', ''dd'', ''eeeeeee''] \<noteq> []"
    by simp_all
  have t: "length ?L = 2 \<and> ?L ! 0 = Join [''aaaa'', ''bbbb''] '' ''
      \<and> ?L ! 1 = Join (take 1 [''cccc'', ''dd'']) '' '' @ ''...''
      \<and> suffix ''...'' (?L ! 1) \<and> length (?L ! 1) \<le> 9
      \<and> wrapText length (9::nat) ''aaaa bbbb cccc dd eeeeeee'' = Join ?L [CHR 0x0A]"
    using wrapText_greedy_two_lines [of "''aaaa bbbb cccc dd eeeeeee''" length "9::nat"] j e gl ne
    unfolding f g n by blast
  then have L: "?L = [''aaaa bbbb'', ''cccc...'']" by (intro two_lines) simp_all
  show ?thesis using t unfolding f L by simp
qed

theorem wrapText_overlong_without_ellipsis:
  "wrapText length (5::nat) ''aaaa bbbb cccc'' = ''aaaa'' @ [CHR 0x0A] @ ''bbbb''
   \<and> length (greedy_groups length (5::nat) (Fields ''aaaa bbbb cccc'')) = 3
   \<and> \<not> suffix ''...'' (wrapText length (5::nat) ''aaaa bbbb cccc'')"
proof -
  have f: "Fields ''aaaa bbbb cccc'' = [''aaaa'', ''bbbb'', ''cccc'']"
    by (simp add: Fields_def space_at_def space_encodings_def)
  have e: "ellipsis_loop length (5::nat) ''bbbb'' = None"
    by (simp add: ellipsis_loop.simps Fields_def space_at_def space_encodings_def)
  have w: "wrapText length (5::nat) ''aaaa bbbb cccc'' = ''aaaa'' @ [CHR 0x0A] @ ''bbbb''"
    by (simp add: wrapText_def wrapped_lines_def f e)
  have g: "length (greedy_groups length (5::nat) (Fields ''aaaa bbbb cccc'')) = 3"
    by (simp add: f greedy_groups_def)
  show ?thesis unfolding w using g by (simp add: suffix_def)
qed

end
